theory Spec2Isabelle
  imports Complex_Main "HOL-Library.AList"
begin

section \<open>The debt planner's simulation engine\<close>

text \<open>
  A shallow embedding of \<^verbatim>\<open>runSimulation\<close> (src/script.js) and of the helpers it calls.
  JavaScript numbers are idealised as real numbers: rounding of doubles, NaN and the
  infinities are outside the model.  Rendering (the table rows, the chart, the per-card
  history and the \<^verbatim>\<open>minDetails\<close> report) has no influence on the quantities below and is
  left out, and a row carries the period's end date in place of its formatted label.  The
  page is taken to hold the result table (without it \<^verbatim>\<open>runSimulation\<close> returns at once).
\<close>

subsection \<open>Calendar dates\<close>

text \<open>
  A JavaScript \<^verbatim>\<open>Date\<close> at local midnight, read through \<^verbatim>\<open>getFullYear\<close>,
  \<^verbatim>\<open>getMonth\<close> (0-based) and \<^verbatim>\<open>getDate\<close>.  The code only compares dates and
  subtracts them for the sign, so \<open>date_key\<close>, which is ordered as the time stamps of
  calendar dates are, stands for \<^verbatim>\<open>valueOf\<close>.
\<close>

record date =
  year :: int
  month0 :: nat
  day :: nat

definition date_key :: "date \<Rightarrow> int" where
  "date_key d = (year d * 12 + int (month0 d)) * 32 + int (day d)"

definition leap_year :: "int \<Rightarrow> bool" where
  "leap_year y = (y mod 4 = 0 \<and> (y mod 100 \<noteq> 0 \<or> y mod 400 = 0))"

definition days_in_month :: "int \<Rightarrow> nat \<Rightarrow> nat" where
  "days_in_month y m =
     (if m = 1 then (if leap_year y then 29 else 28)
      else if m = 3 \<or> m = 5 \<or> m = 8 \<or> m = 10 then 30
      else 31)"

text \<open>
  \<^verbatim>\<open>new Date(y, m, d)\<close> for the arguments the engine passes: a month index that may
  run over into the next year, and a day that is either 0 (the last day of the month
  before) or a day of that month.  Years are 100 or later (JavaScript remaps 0..99).
\<close>

definition js_date :: "int \<Rightarrow> nat \<Rightarrow> nat \<Rightarrow> date" where
  "js_date y m d =
     (let y' = y + int (m div 12); m' = m mod 12 in
      if d = 0 then
        (if m' = 0 then \<lparr>year = y' - 1, month0 = 11, day = 31\<rparr>
         else \<lparr>year = y', month0 = m' - 1, day = days_in_month y' (m' - 1)\<rparr>)
      else \<lparr>year = y', month0 = m', day = d\<rparr>)"

definition date_ok :: "date \<Rightarrow> bool" where
  "date_ok d = (100 \<le> year d \<and> month0 d < 12 \<and> 1 \<le> day d
                \<and> day d \<le> days_in_month (year d) (month0 d))"

definition makeDueDate :: "int \<Rightarrow> nat \<Rightarrow> nat \<Rightarrow> date" where
  "makeDueDate y monthIndex0 dueDay_n =
     (let lastDay = day (js_date y (monthIndex0 + 1) 0);
          d = min dueDay_n lastDay
      in js_date y monthIndex0 d)"

subsection \<open>Data\<close>

record debt =
  debt_id :: nat
  debt_name :: string
  balance :: real
  rate :: real
  creditLimit :: "real option"
  monthlyMin :: real
  dueDay :: "int option"

record obligation =
  dueDate :: date
  amountRemaining :: real
  ob_monthlyMin :: real
  banxicoBaseMin :: real

record goal =
  goal_name :: string
  targetAmount :: real
  startingSaved :: real
  saved :: real
  priority :: int

datatype event_type = Income | Expense

record event =
  ev_name :: string
  ev_date :: date
  ev_amount :: real
  ev_type :: event_type

record app_state =
  startDate :: date
  grossIncome :: real
  deductions :: "real list"
  fixedExpenses :: "real list"
  discretionary :: real
  strategy :: string
  debts :: "debt list"
  goals :: "goal list"
  events :: "event list"

record banxico =
  monthlyInterest :: real
  monthlyIVA :: real
  base1p5 :: real
  optionA :: real
  optionB :: real
  baseMin :: real

subsection \<open>Due dates and the regulatory floor\<close>

definition getDueDayOrDefault :: "debt \<Rightarrow> nat" where
  "getDueDayOrDefault d =
     (case dueDay d of
        Some raw \<Rightarrow> if raw > 0 then nat (min raw 31) else 25
      | None \<Rightarrow> 25)"

definition getFirstDueDate :: "date \<Rightarrow> debt \<Rightarrow> date" where
  "getFirstDueDate simStartDate d =
     (let dd = getDueDayOrDefault d;
          y0 = year simStartDate;
          m0 = month0 simStartDate;
          candidate = makeDueDate y0 m0 dd
      in if date_key candidate \<ge> date_key simStartDate then candidate
         else if m0 + 1 > 11 then makeDueDate (y0 + 1) 0 dd
         else makeDueDate y0 (m0 + 1) dd)"

definition computeBanxicoMonthlyComponents :: "real \<Rightarrow> real \<Rightarrow> real option \<Rightarrow> banxico" where
  "computeBanxicoMonthlyComponents prevBalance annualRate limit =
     (if prevBalance \<le> 0 \<or> annualRate \<le> 0 then
        \<lparr>monthlyInterest = 0, monthlyIVA = 0, base1p5 = 0, optionA = 0, optionB = 0,
         baseMin = 0\<rparr>
      else
        let mi = (prevBalance * (annualRate / 100)) / 12;
            iva = mi * 0.16;
            b15 = 0.015 * prevBalance;
            oa = b15 + mi + iva;
            ob = (case limit of Some c \<Rightarrow> if c > 0 then 0.0125 * c else 0 | None \<Rightarrow> 0);
            bm = max oa ob;
            maxPossible = prevBalance + mi + iva
        in \<lparr>monthlyInterest = mi, monthlyIVA = iva, base1p5 = b15, optionA = oa,
            optionB = ob, baseMin = (if bm > maxPossible then maxPossible else bm)\<rparr>)"

text \<open>The binding minimum of a new obligation, as computed at seeding and at rollover.\<close>

definition binding_min :: "debt \<Rightarrow> real" where
  "binding_min d =
     (let ban = computeBanxicoMonthlyComponents (balance d) (rate d) (creditLimit d);
          userMin = monthlyMin d
      in if userMin > 0 then max userMin (baseMin ban) else baseMin ban)"

definition new_obligation :: "date \<Rightarrow> debt \<Rightarrow> obligation" where
  "new_obligation due d =
     \<lparr>dueDate = due, amountRemaining = binding_min d, ob_monthlyMin = binding_min d,
      banxicoBaseMin = baseMin (computeBanxicoMonthlyComponents (balance d) (rate d) (creditLimit d))\<rparr>"

subsection \<open>Seeding the obligation queues\<close>

text \<open>
  \<^verbatim>\<open>minObligations\<close> is an object keyed by debt id; here an association list.
  Assigning to a key that is present replaces its queue.
\<close>

type_synonym obligations = "(nat \<times> obligation list) list"

definition obs_of :: "obligations \<Rightarrow> nat \<Rightarrow> obligation list" where
  "obs_of mo k = (case map_of mo k of Some obs \<Rightarrow> obs | None \<Rightarrow> [])"

fun seed_obligations :: "date \<Rightarrow> debt list \<Rightarrow> obligations \<Rightarrow> obligations" where
  "seed_obligations simStartDate [] mo = mo"
| "seed_obligations simStartDate (d # ds) mo =
     (if balance d \<le> 0.5 then seed_obligations simStartDate ds mo
      else seed_obligations simStartDate ds
             (AList.update (debt_id d) [new_obligation (getFirstDueDate simStartDate d) d] mo))"

subsection \<open>Sorting with a comparator\<close>

text \<open>
  \<^verbatim>\<open>Array.prototype.sort\<close> with a comparator \<open>c\<close>: the result is ordered by
  \<open>c a b \<le> 0\<close> and elements that compare equal keep their order (the sort is stable).
  Insertion from the right computes that list.
\<close>

fun insort_cmp :: "('a \<Rightarrow> 'a \<Rightarrow> real) \<Rightarrow> 'a \<Rightarrow> 'a list \<Rightarrow> 'a list" where
  "insort_cmp c x [] = [x]"
| "insort_cmp c x (y # ys) = (if c x y \<le> 0 then x # y # ys else y # insort_cmp c x ys)"

definition js_sort :: "('a \<Rightarrow> 'a \<Rightarrow> real) \<Rightarrow> 'a list \<Rightarrow> 'a list" where
  "js_sort c xs = foldr (insort_cmp c) xs []"

subsection \<open>Step 1: cash events of a period\<close>

definition include_event :: "date option \<Rightarrow> date \<Rightarrow> date \<Rightarrow> event \<Rightarrow> bool" where
  "include_event prevPeriodEnd simStartDate periodEnd ev =
     (case prevPeriodEnd of
        Some p \<Rightarrow> date_key (ev_date ev) > date_key p \<and> date_key (ev_date ev) \<le> date_key periodEnd
      | None \<Rightarrow> date_key (ev_date ev) \<ge> date_key simStartDate
                \<and> date_key (ev_date ev) \<le> date_key periodEnd)"

definition add_event :: "date option \<Rightarrow> date \<Rightarrow> date \<Rightarrow> real \<times> real \<Rightarrow> event \<Rightarrow> real \<times> real" where
  "add_event prevPeriodEnd simStartDate periodEnd acc ev =
     (if \<not> include_event prevPeriodEnd simStartDate periodEnd ev then acc
      else if ev_type ev = Income then (fst acc + ev_amount ev, snd acc)
      else (fst acc, snd acc + ev_amount ev))"

definition baseNet :: "app_state \<Rightarrow> real" where
  "baseNet inp = grossIncome inp - foldl (+) 0 (deductions inp)"

definition baseFixed :: "app_state \<Rightarrow> real" where
  "baseFixed inp = foldl (+) 0 (fixedExpenses inp)"

definition cash_aggregation :: "app_state \<Rightarrow> date option \<Rightarrow> date \<Rightarrow> real \<times> real" where
  "cash_aggregation inp prevPeriodEnd periodEnd =
     foldl (add_event prevPeriodEnd (startDate inp) periodEnd)
       (baseNet inp, baseFixed inp + discretionary inp) (events inp)"

subsection \<open>Step 2: interest accrual\<close>

definition intereses :: "debt \<Rightarrow> real" where
  "intereses d = (balance d * (rate d / 100)) / 24"

definition iva :: "debt \<Rightarrow> real" where
  "iva d = intereses d * 0.16"

definition totalCharge :: "debt \<Rightarrow> real" where
  "totalCharge d = intereses d + iva d"

fun accrue_interest :: "debt list \<Rightarrow> real \<Rightarrow> debt list \<times> real" where
  "accrue_interest [] tip = ([], tip)"
| "accrue_interest (d # ds) tip =
     (if balance d \<le> 0.5 then
        (case accrue_interest ds tip of (ds', tip') \<Rightarrow> (d\<lparr>balance := 0\<rparr> # ds', tip'))
      else
        (case accrue_interest ds (tip + totalCharge d) of
           (ds', tip') \<Rightarrow> (d\<lparr>balance := balance d + totalCharge d\<rparr> # ds', tip')))"

subsection \<open>Step 3: obligation rollover\<close>

definition next_due_date :: "debt \<Rightarrow> obligation \<Rightarrow> date" where
  "next_due_date d lastOb =
     (let y = year (dueDate lastOb);
          m = month0 (dueDate lastOb) + 1
      in if m > 11 then makeDueDate (y + 1) 0 (getDueDayOrDefault d)
         else makeDueDate y m (getDueDayOrDefault d))"

function roll_obs :: "date \<Rightarrow> debt \<Rightarrow> obligation \<Rightarrow> obligation list \<Rightarrow> obligation list" where
  "roll_obs periodEnd d lastOb obs =
     (if date_key periodEnd > date_key (dueDate lastOb) \<and> length obs < 240 \<and> balance d > 0.5
      then (let newOb = new_obligation (next_due_date d lastOb) d
            in roll_obs periodEnd d newOb (obs @ [newOb]))
      else obs)"
  by pat_completeness auto
termination
  by (relation "measure (\<lambda>(periodEnd, d, lastOb, obs). 240 - length obs)") auto

declare roll_obs.simps [simp del]

text \<open>
  One key of \<^verbatim>\<open>minObligations\<close>: the debt is the first one carrying that id.  Every
  key changes its own queue only, so the order in which the keys are visited is
  immaterial.
\<close>

definition roll_entry :: "date \<Rightarrow> debt list \<Rightarrow> nat \<Rightarrow> obligation list \<Rightarrow> obligation list" where
  "roll_entry periodEnd ds k obs =
     (case find (\<lambda>d. debt_id d = k) ds of
        None \<Rightarrow> obs
      | Some d \<Rightarrow>
          if balance d \<le> 0.5 then obs
          else if obs = [] then obs
          else roll_obs periodEnd d (last obs) obs)"

definition rollover :: "date \<Rightarrow> debt list \<Rightarrow> obligations \<Rightarrow> obligations" where
  "rollover periodEnd ds mo = map (\<lambda>(k, obs). (k, roll_entry periodEnd ds k obs)) mo"

subsection \<open>Step 4: minimum-payment settlement\<close>

text \<open>
  \<^verbatim>\<open>debtsForMin\<close> holds references to the debt objects and their queues; the model keeps
  the position of the debt in \<^verbatim>\<open>currentDebts\<close> and reads debt and queue when the entry
  is processed.
\<close>

record min_entry =
  me_debt :: nat
  earliestDue :: date
  totalRemaining :: real

definition activeObs :: "obligation list \<Rightarrow> obligation list" where
  "activeObs obs = filter (\<lambda>ob. amountRemaining ob > 0.5) obs"

definition min_entry_of :: "debt list \<Rightarrow> obligations \<Rightarrow> nat \<Rightarrow> min_entry option" where
  "min_entry_of ds mo i =
     (let d = ds ! i;
          act = activeObs (obs_of mo (debt_id d))
      in if act = [] \<or> balance d \<le> 0.5 then None
         else Some \<lparr>me_debt = i,
                    earliestDue = foldl (\<lambda>m ob. if date_key (dueDate ob) < date_key m
                                                 then dueDate ob else m) (dueDate (hd act)) act,
                    totalRemaining = foldl (\<lambda>t ob. t + amountRemaining ob) 0 act\<rparr>)"

definition cmp_min :: "min_entry \<Rightarrow> min_entry \<Rightarrow> real" where
  "cmp_min a b =
     (if date_key (earliestDue a) - date_key (earliestDue b) \<noteq> 0
      then real_of_int (date_key (earliestDue a) - date_key (earliestDue b))
      else totalRemaining b - totalRemaining a)"

definition debtsForMin :: "debt list \<Rightarrow> obligations \<Rightarrow> min_entry list" where
  "debtsForMin ds mo = js_sort cmp_min (List.map_filter (min_entry_of ds mo) [0..<length ds])"

definition cmp_due :: "obligation list \<Rightarrow> nat \<Rightarrow> nat \<Rightarrow> real" where
  "cmp_due obs i j = real_of_int (date_key (dueDate (obs ! i)) - date_key (dueDate (obs ! j)))"

definition sortedObs :: "obligation list \<Rightarrow> nat list" where
  "sortedObs obs = js_sort (cmp_due obs) [0..<length obs]"

text \<open>
  The body of the loop over one debt's obligations after its \<^verbatim>\<open>break\<close> test: the state
  is the cash available, the debt's balance, its queue and \<^verbatim>\<open>paidMins\<close>.
\<close>

definition pay_ob :: "nat \<Rightarrow> real \<times> real \<times> obligation list \<times> real \<Rightarrow> real \<times> real \<times> obligation list \<times> real" where
  "pay_ob i st =
     (case st of (cash, bal, obs, paid) \<Rightarrow>
        if amountRemaining (obs ! i) \<le> 0.5 then st
        else let pay = min cash (min (amountRemaining (obs ! i)) bal)
             in if pay \<le> 0 then st
                else (cash - pay, bal - pay,
                      obs[i := (obs ! i)\<lparr>amountRemaining := amountRemaining (obs ! i) - pay\<rparr>],
                      paid + pay))"

fun pay_obs :: "nat list \<Rightarrow> real \<times> real \<times> obligation list \<times> real \<Rightarrow> real \<times> real \<times> obligation list \<times> real" where
  "pay_obs [] st = st"
| "pay_obs (i # js) st = (if fst st \<le> 0 then st else pay_obs js (pay_ob i st))"

record settle_state =
  ss_cash :: real
  ss_debts :: "debt list"
  ss_obs :: obligations
  ss_paid :: real

definition settle_debt :: "settle_state \<Rightarrow> min_entry \<Rightarrow> settle_state" where
  "settle_debt st e =
     (let d = ss_debts st ! me_debt e;
          obs = obs_of (ss_obs st) (debt_id d)
      in case pay_obs (sortedObs obs) (ss_cash st, balance d, obs, ss_paid st) of
           (cash, bal, obs', paid) \<Rightarrow>
             \<lparr>ss_cash = cash,
              ss_debts = (ss_debts st)[me_debt e := d\<lparr>balance := bal\<rparr>],
              ss_obs = AList.update (debt_id d) obs' (ss_obs st),
              ss_paid = paid\<rparr>)"

definition settle_minimums :: "real \<Rightarrow> debt list \<Rightarrow> obligations \<Rightarrow> settle_state" where
  "settle_minimums cash ds mo =
     foldl settle_debt \<lparr>ss_cash = cash, ss_debts = ds, ss_obs = mo, ss_paid = 0\<rparr>
       (debtsForMin ds mo)"

subsection \<open>Step 6: strategy allocation\<close>

definition cmp_strategy :: "string \<Rightarrow> debt \<Rightarrow> debt \<Rightarrow> real" where
  "cmp_strategy sel a b =
     (if sel = ''snowball'' then balance a - balance b
      else if sel = ''avalanche'' then rate b - rate a
      else if sel = ''highMin'' then monthlyMin b - monthlyMin a
      else if sel = ''reverseSnowball'' then balance b - balance a
      else rate b - rate a)"

type_synonym alloc = "real \<times> debt list \<times> (string \<times> real) list"

definition pay_debt :: "nat \<Rightarrow> real \<Rightarrow> alloc \<Rightarrow> alloc" where
  "pay_debt i pay st =
     (case st of (extra, ds, lg) \<Rightarrow>
        (extra - pay, ds[i := (ds ! i)\<lparr>balance := balance (ds ! i) - pay\<rparr>],
         lg @ [(debt_name (ds ! i), pay)]))"

fun pay_flat :: "real \<Rightarrow> nat list \<Rightarrow> alloc \<Rightarrow> alloc" where
  "pay_flat tot [] st = st"
| "pay_flat tot (i # js) st =
     (case st of (extra, ds, lg) \<Rightarrow>
        if extra \<le> 1 then pay_flat tot js st
        else let share = balance (ds ! i) / tot;
                 pay = min (extra * share) (balance (ds ! i))
             in if pay \<le> 0 then pay_flat tot js st
                else pay_flat tot js (pay_debt i pay st))"

fun pay_extra :: "nat list \<Rightarrow> alloc \<Rightarrow> alloc" where
  "pay_extra [] st = st"
| "pay_extra (i # js) st =
     (case st of (extra, ds, lg) \<Rightarrow>
        if extra \<le> 1 then st
        else let pay = min extra (balance (ds ! i))
             in if pay \<le> 0 then pay_extra js st
                else pay_extra js (pay_debt i pay st))"

definition activeDebts :: "debt list \<Rightarrow> nat list" where
  "activeDebts ds = filter (\<lambda>i. balance (ds ! i) > 0.5) [0..<length ds]"

definition orderedDebts :: "string \<Rightarrow> debt list \<Rightarrow> nat list" where
  "orderedDebts sel ds = js_sort (\<lambda>i j. cmp_strategy sel (ds ! i) (ds ! j)) (activeDebts ds)"

definition strategy_allocation :: "string \<Rightarrow> real \<Rightarrow> debt list \<Rightarrow> alloc" where
  "strategy_allocation sel0 cash ds =
     (if cash > 1 then
        (let sel = (if sel0 = [] then ''snowball'' else sel0);
             totalActiveBalance = foldl (\<lambda>t i. t + balance (ds ! i)) 0 (activeDebts ds)
         in if sel = ''flat'' \<and> totalActiveBalance > 0
            then pay_flat totalActiveBalance (activeDebts ds) (cash, ds, [])
            else pay_extra (orderedDebts sel ds) (cash, ds, []))
      else (cash, ds, []))"

subsection \<open>Steps 7 and 8: balance cleanup and goal funding\<close>

definition cleanup :: "debt list \<Rightarrow> debt list" where
  "cleanup ds = map (\<lambda>d. if balance d < 1 then d\<lparr>balance := 0\<rparr> else d) ds"

definition total_balance :: "debt list \<Rightarrow> real" where
  "total_balance ds = foldl (\<lambda>t d. t + balance d) 0 ds"

definition goal_prio :: "goal \<Rightarrow> int" where
  "goal_prio g = (if priority g = 0 then 999 else priority g)"

type_synonym funding = "real \<times> goal list \<times> (string \<times> real) list"

fun pay_goals :: "nat list \<Rightarrow> funding \<Rightarrow> funding" where
  "pay_goals [] st = st"
| "pay_goals (i # js) st =
     (case st of (extra, gs, lg) \<Rightarrow>
        if extra \<le> 1 then st
        else let need = targetAmount (gs ! i) - saved (gs ! i)
             in if need \<le> 0 then pay_goals js st
                else let pay = min need extra
                     in pay_goals js
                          (extra - pay, gs[i := (gs ! i)\<lparr>saved := saved (gs ! i) + pay\<rparr>],
                           lg @ [(goal_name (gs ! i), pay)]))"

definition orderedGoals :: "goal list \<Rightarrow> nat list" where
  "orderedGoals gs =
     js_sort (\<lambda>i j. real_of_int (goal_prio (gs ! i) - goal_prio (gs ! j)))
       (filter (\<lambda>i. targetAmount (gs ! i) - saved (gs ! i) > 1) [0..<length gs])"

definition fund_goals :: "real \<Rightarrow> real \<Rightarrow> goal list \<Rightarrow> funding" where
  "fund_goals debtRem cash gs =
     (let canSaveNow = (debtRem \<le> 5 \<and> gs \<noteq> [])
      in if cash > 1 \<and> canSaveNow then pay_goals (orderedGoals gs) (cash, gs, [])
         else (cash, gs, []))"

definition goal_remaining :: "goal list \<Rightarrow> real" where
  "goal_remaining gs = foldl (\<lambda>t g. t + max 0 (targetAmount g - saved g)) 0 gs"

subsection \<open>The period loop\<close>

record row =
  row_id :: nat
  rowDate :: date
  income :: real
  expenses :: real
  initialCash :: real
  row_paidMins :: real
  strategyDetails :: "(string \<times> real) list"
  savingDetails :: "(string \<times> real) list"
  endBalance :: real
  pocket :: real

record sim =
  currentDebts :: "debt list"
  currentGoals :: "goal list"
  minObligations :: obligations
  currentDate :: date
  prevPeriodEnd :: "date option"
  iteration :: nat
  totalInterestPaid :: real
  debtRemaining :: real
  totalGoalRemaining :: real
  carryOver :: real
  debtFreedomIndex :: "nat option"
  simulationResults :: "row list"

definition init_sim :: "app_state \<Rightarrow> sim" where
  "init_sim inp =
     \<lparr>currentDebts = debts inp,
      currentGoals = map (\<lambda>g. g\<lparr>saved := startingSaved g\<rparr>) (goals inp),
      minObligations = seed_obligations (startDate inp) (debts inp) [],
      currentDate = startDate inp,
      prevPeriodEnd = None,
      iteration = 0,
      totalInterestPaid = 0,
      debtRemaining = total_balance (debts inp),
      totalGoalRemaining = goal_remaining (map (\<lambda>g. g\<lparr>saved := startingSaved g\<rparr>) (goals inp)),
      carryOver = 0,
      debtFreedomIndex = None,
      simulationResults = []\<rparr>"

text \<open>The values of the loop body's variables in one iteration, phase after phase.\<close>

record locals =
  periodIncome :: real
  periodExpense :: real
  cash_start :: real
  debts_accrued :: "debt list"
  interest_total :: real
  obs_rolled :: obligations
  settled :: settle_state
  allocated :: alloc
  debts_clean :: "debt list"
  funded :: funding

definition period_body :: "app_state \<Rightarrow> sim \<Rightarrow> locals" where
  "period_body inp s =
     (let periodEnd = currentDate s;
          ie = cash_aggregation inp (prevPeriodEnd s) periodEnd;
          cashAvailable = fst ie - snd ie + carryOver s;
          acc = accrue_interest (currentDebts s) (totalInterestPaid s);
          mo = rollover periodEnd (fst acc) (minObligations s);
          st = settle_minimums cashAvailable (fst acc) mo;
          al = strategy_allocation (strategy inp) (ss_cash st) (ss_debts st);
          ds = cleanup (fst (snd al))
      in \<lparr>periodIncome = fst ie, periodExpense = snd ie, cash_start = cashAvailable,
          debts_accrued = fst acc, interest_total = snd acc, obs_rolled = mo,
          settled = st, allocated = al, debts_clean = ds,
          funded = fund_goals (total_balance ds) (fst al) (currentGoals s)\<rparr>)"

definition next_date :: "date \<Rightarrow> date" where
  "next_date d =
     (if day d \<le> 15 then js_date (year d) (month0 d + 1) 0
      else js_date (year d) (month0 d + 1) 15)"

definition period_step :: "app_state \<Rightarrow> sim \<Rightarrow> sim" where
  "period_step inp s =
     (let b = period_body inp s;
          dr = total_balance (debts_clean b);
          cashAvailable = fst (funded b)
      in \<lparr>currentDebts = debts_clean b,
          currentGoals = fst (snd (funded b)),
          minObligations = ss_obs (settled b),
          currentDate = next_date (currentDate s),
          prevPeriodEnd = Some (currentDate s),
          iteration = iteration s + 1,
          totalInterestPaid = interest_total b,
          debtRemaining = dr,
          totalGoalRemaining = goal_remaining (fst (snd (funded b))),
          carryOver = max 0 cashAvailable,
          debtFreedomIndex =
            (if debtFreedomIndex s = None \<and> dr \<le> 5 then Some (length (simulationResults s))
             else debtFreedomIndex s),
          simulationResults = simulationResults s @
            [\<lparr>row_id = iteration s + 1, rowDate = currentDate s,
              income = periodIncome b, expenses = periodExpense b,
              initialCash = cash_start b, row_paidMins = ss_paid (settled b),
              strategyDetails = snd (snd (allocated b)),
              savingDetails = snd (snd (funded b)),
              endBalance = dr, pocket = max 0 cashAvailable\<rparr>]\<rparr>)"

definition continue_loop :: "sim \<Rightarrow> bool" where
  "continue_loop s = ((debtRemaining s > 5 \<or> totalGoalRemaining s > 5) \<and> iteration s < 120)"

function sim_loop :: "app_state \<Rightarrow> sim \<Rightarrow> sim" where
  "sim_loop inp s = (if continue_loop s then sim_loop inp (period_step inp s) else s)"
  by pat_completeness auto
termination
  by (relation "measure (\<lambda>(inp, s). 120 - iteration s)")
     (auto simp: continue_loop_def period_step_def Let_def)

declare sim_loop.simps [simp del]

definition runSimulation :: "app_state \<Rightarrow> sim" where
  "runSimulation inp = sim_loop inp (init_sim inp)"

text \<open>The state after \<open>k\<close> iterations of the loop body, whether or not the loop runs that long.\<close>

primrec state_after :: "app_state \<Rightarrow> nat \<Rightarrow> sim" where
  "state_after inp 0 = init_sim inp"
| "state_after inp (Suc k) = period_step inp (state_after inp k)"

section \<open>Vocabulary of the properties\<close>

text \<open>
  Notions the properties below are stated in.  Those that render a sentence of the
  specification are written from its words, to be compared with the functions above.
\<close>

text \<open>
  The two quantities of the loop's exit test in the words of the specification: the total
  remaining balance of a list of debts, and the total remaining shortfall of a list of
  goals (what each goal still lacks of its target, nothing when it is over-funded).
\<close>

definition total_debt :: "debt list \<Rightarrow> real" where
  "total_debt ds = sum_list (map balance ds)"

definition total_shortfall :: "goal list \<Rightarrow> real" where
  "total_shortfall gs = sum_list (map (\<lambda>g. max 0 (targetAmount g - saved g)) gs)"

text \<open>Totals of a payment log, of the charges accrued in one period, and of everything paid to debts in a run.\<close>

definition log_total :: "(string \<times> real) list \<Rightarrow> real" where
  "log_total lg = sum_list (map snd lg)"

definition period_charge :: "debt list \<Rightarrow> real" where
  "period_charge ds = sum_list (map (\<lambda>d. intereses d + iva d) (filter (\<lambda>d. balance d > 0.5) ds))"

definition total_paid :: "sim \<Rightarrow> real" where
  "total_paid s =
     sum_list (map (\<lambda>r. row_paidMins r + log_total (strategyDetails r)) (simulationResults s))"

text \<open>
  Period \<open>k\<close> (counted from 0) is the iteration that starts in \<open>state_after inp k\<close>: its
  end date is that state's \<open>currentDate\<close>, and \<open>included inp k ev\<close> is the test the loop
  applies to the event in that iteration.  \<open>periods_including\<close> lists the periods of the
  run that count the event.
\<close>

definition period_end :: "app_state \<Rightarrow> nat \<Rightarrow> date" where
  "period_end inp k = currentDate (state_after inp k)"

definition included :: "app_state \<Rightarrow> nat \<Rightarrow> event \<Rightarrow> bool" where
  "included inp k ev =
     include_event (prevPeriodEnd (state_after inp k)) (startDate inp)
       (currentDate (state_after inp k)) ev"

definition periods_including :: "app_state \<Rightarrow> event \<Rightarrow> nat list" where
  "periods_including inp ev =
     filter (\<lambda>k. included inp k ev) [0..<iteration (runSimulation inp)]"

text \<open>
  The invariants of an obligation queue: every amount remaining lies between 0 and the
  obligation's monthly minimum, and the due dates ascend.  \<open>queue_wf\<close> adds that every due
  date is a calendar date, which the rollover needs to keep the order.
\<close>

definition ob_ok :: "obligation \<Rightarrow> bool" where
  "ob_ok ob = (0 \<le> amountRemaining ob \<and> amountRemaining ob \<le> ob_monthlyMin ob)"

definition queue_ok :: "obligation list \<Rightarrow> bool" where
  "queue_ok obs = (list_all ob_ok obs \<and> sorted (map (\<lambda>ob. date_key (dueDate ob)) obs))"

definition queue_wf :: "obligation list \<Rightarrow> bool" where
  "queue_wf obs = (queue_ok obs \<and> list_all (\<lambda>ob. date_ok (dueDate ob)) obs)"

definition queues_ok :: "obligations \<Rightarrow> bool" where
  "queues_ok mo = list_all (\<lambda>kv. queue_ok (snd kv)) mo"

definition queues_wf :: "obligations \<Rightarrow> bool" where
  "queues_wf mo = list_all (\<lambda>kv. queue_wf (snd kv)) mo"

text \<open>
  The rollover in the words of the specification.  \<open>stated_month_after\<close> is the due date
  as the claim states it: one calendar month after the previous due date, the day of that
  date clamped to the length of the target month.  \<open>due_day_in_next_month\<close> is the date
  the amended claim names: the debt's due day, clamped to the length of the month, in the
  calendar month that follows the month of the previous due date.  \<open>regulatory_floor\<close> is
  the floor of the minimum-payment approximator (1.5 percent of the balance plus a month
  of interest and its 16 percent surcharge, or 1.25 percent of the credit limit if that is
  more, never above balance plus interest plus surcharge), \<open>spec_min\<close> the minimum that
  binds a new obligation, and \<open>appended_by_rollover\<close> says what it means for an obligation
  to have been appended to a queue of \<open>len\<close> entries whose latest entry is \<open>prev\<close>.
\<close>

definition due_day_in_next_month :: "date \<Rightarrow> nat \<Rightarrow> date" where
  "due_day_in_next_month prev dd =
     (if month0 prev = 11
      then \<lparr>year = year prev + 1, month0 = 0, day = min dd (days_in_month (year prev + 1) 0)\<rparr>
      else \<lparr>year = year prev, month0 = month0 prev + 1,
            day = min dd (days_in_month (year prev) (month0 prev + 1))\<rparr>)"

definition stated_month_after :: "date \<Rightarrow> date" where
  "stated_month_after prev = due_day_in_next_month prev (day prev)"

definition regulatory_floor :: "debt \<Rightarrow> real" where
  "regulatory_floor d =
     (if balance d \<le> 0 \<or> rate d \<le> 0 then 0
      else min (max (0.015 * balance d
                     + balance d * (rate d / 100) / 12
                     + balance d * (rate d / 100) / 12 * 0.16)
                    (case creditLimit d of None \<Rightarrow> 0 | Some c \<Rightarrow> 0.0125 * c))
               (balance d + balance d * (rate d / 100) / 12
                 + balance d * (rate d / 100) / 12 * 0.16))"

definition spec_min :: "debt \<Rightarrow> real" where
  "spec_min d = (if monthlyMin d > 0 then max (monthlyMin d) (regulatory_floor d)
                 else regulatory_floor d)"

definition roll_cond :: "date \<Rightarrow> debt \<Rightarrow> obligation \<Rightarrow> nat \<Rightarrow> bool" where
  "roll_cond pe d prev len =
     (date_key pe > date_key (dueDate prev) \<and> balance d > 0.5 \<and> len < 240)"

definition appended_by_rollover :: "date \<Rightarrow> debt \<Rightarrow> obligation \<Rightarrow> nat \<Rightarrow> obligation \<Rightarrow> bool" where
  "appended_by_rollover pe d prev len ob =
     (roll_cond pe d prev len
      \<and> dueDate ob = due_day_in_next_month (dueDate prev) (getDueDayOrDefault d)
      \<and> ob_monthlyMin ob = spec_min d
      \<and> amountRemaining ob = spec_min d)"

definition rolled_queue :: "date \<Rightarrow> debt \<Rightarrow> obligation list \<Rightarrow> obligation list \<Rightarrow> bool" where
  "rolled_queue pe d obs res =
     (take (length obs) res = obs
      \<and> list_all (\<lambda>i. appended_by_rollover pe d (res ! (i - 1)) i (res ! i))
           [length obs..<length res]
      \<and> \<not> roll_cond pe d (last res) (length res))"

text \<open>
  Sequential allocation in the words of the specification.  \<open>stated_payments\<close> is the rule
  as the claim states it: every debt in turn receives the minimum of the remaining cash and
  its balance.  \<open>threshold_payments\<close> adds the threshold of the code: a debt is paid only
  while the remaining cash exceeds 1.  \<open>pay_each\<close> subtracts a list of payments from the
  balances of the listed debts.
\<close>

fun stated_payments :: "real \<Rightarrow> real list \<Rightarrow> real list" where
  "stated_payments c [] = []"
| "stated_payments c (b # bs) = min c b # stated_payments (c - min c b) bs"

fun threshold_payments :: "real \<Rightarrow> real list \<Rightarrow> real list" where
  "threshold_payments c [] = []"
| "threshold_payments c (b # bs) =
     (if c > 1 then min c b # threshold_payments (c - min c b) bs
      else 0 # threshold_payments c bs)"

definition pay_each :: "nat list \<Rightarrow> real list \<Rightarrow> debt list \<Rightarrow> debt list" where
  "pay_each js ps ds =
     foldl (\<lambda>xs ip. xs[fst ip := (xs ! fst ip)\<lparr>balance := balance (xs ! fst ip) - snd ip\<rparr>])
       ds (zip js ps)"

definition payment_log :: "nat list \<Rightarrow> real list \<Rightarrow> debt list \<Rightarrow> (string \<times> real) list" where
  "payment_log js ps ds =
     map (\<lambda>ip. (debt_name (ds ! fst ip), snd ip)) (filter (\<lambda>ip. snd ip > 0) (zip js ps))"

definition selector :: "string \<Rightarrow> string" where
  "selector sel0 = (if sel0 = [] then ''snowball'' else sel0)"

text \<open>
  Settlement of one debt in the words of the specification.  The arguments are the cash
  available, the debt's balance and the amounts remaining of its obligations in due-date
  order; the result lists what each obligation receives.  \<open>stated_due_payments\<close> is the
  rule as the claim states it; \<open>due_payments\<close> adds the threshold of the code, which passes
  over an obligation with at most 0.5 remaining.  \<open>pay_each_ob\<close> subtracts a list of
  payments from the listed obligations.
\<close>

fun stated_due_payments :: "real \<Rightarrow> real \<Rightarrow> real list \<Rightarrow> real list" where
  "stated_due_payments c b [] = []"
| "stated_due_payments c b (a # as) =
     (if c > 0 then min c (min a b) # stated_due_payments (c - min c (min a b)) (b - min c (min a b)) as
      else 0 # stated_due_payments c b as)"

fun due_payments :: "real \<Rightarrow> real \<Rightarrow> real list \<Rightarrow> real list" where
  "due_payments c b [] = []"
| "due_payments c b (a # as) =
     (if c > 0 \<and> a > 0.5
      then min c (min a b) # due_payments (c - min c (min a b)) (b - min c (min a b)) as
      else 0 # due_payments c b as)"

definition pay_each_ob :: "nat list \<Rightarrow> real list \<Rightarrow> obligation list \<Rightarrow> obligation list" where
  "pay_each_ob js ps obs =
     foldl (\<lambda>xs ip. xs[fst ip := (xs ! fst ip)\<lparr>amountRemaining :=
                                   amountRemaining (xs ! fst ip) - snd ip\<rparr>])
       obs (zip js ps)"

definition is_earliest_due :: "obligation list \<Rightarrow> date \<Rightarrow> bool" where
  "is_earliest_due obs d =
     (d \<in> dueDate ` set (activeObs obs)
      \<and> (\<forall>ob\<in>set (activeObs obs). date_key d \<le> date_key (dueDate ob)))"

definition more_urgent :: "min_entry \<Rightarrow> min_entry \<Rightarrow> bool" where
  "more_urgent a b =
     (date_key (earliestDue a) < date_key (earliestDue b)
      \<or> (date_key (earliestDue a) = date_key (earliestDue b)
          \<and> totalRemaining b \<le> totalRemaining a))"

text \<open>A settlement that raises no balance and turns no non-negative balance negative.\<close>

definition not_overpaid :: "debt list \<Rightarrow> debt list \<Rightarrow> bool" where
  "not_overpaid ds ds' =
     (length ds' = length ds
      \<and> (\<forall>i<length ds. balance (ds' ! i) \<le> balance (ds ! i)
                         \<and> (0 \<le> balance (ds ! i) \<longrightarrow> 0 \<le> balance (ds' ! i))))"

section \<open>Scenarios\<close>

text \<open>Concrete inputs on which the properties below are exercised.\<close>

definition plain_debt :: "nat \<Rightarrow> string \<Rightarrow> real \<Rightarrow> debt" where
  "plain_debt k n b =
     \<lparr>debt_id = k, debt_name = n, balance = b, rate = 0, creditLimit = None,
      monthlyMin = 0, dueDay = None\<rparr>"

definition ex_single :: app_state where
  "ex_single =
     \<lparr>startDate = \<lparr>year = 2025, month0 = 0, day = 1\<rparr>, grossIncome = 200,
      deductions = [], fixedExpenses = [], discretionary = 0, strategy = ''snowball'',
      debts = [plain_debt 1 ''A'' 100], goals = [], events = []\<rparr>"

definition ex_goal :: app_state where
  "ex_goal =
     \<lparr>startDate = \<lparr>year = 2025, month0 = 0, day = 1\<rparr>, grossIncome = 150,
      deductions = [], fixedExpenses = [], discretionary = 0, strategy = ''snowball'',
      debts = [plain_debt 1 ''A'' 100],
      goals = [\<lparr>goal_name = ''G'', targetAmount = 100, startingSaved = 0, saved = 0,
                priority = 1\<rparr>],
      events = []\<rparr>"

definition ex_deficit :: app_state where
  "ex_deficit =
     \<lparr>startDate = \<lparr>year = 2025, month0 = 0, day = 1\<rparr>, grossIncome = 0,
      deductions = [], fixedExpenses = [100], discretionary = 0, strategy = ''snowball'',
      debts = [],
      goals = [\<lparr>goal_name = ''G'', targetAmount = 100, startingSaved = 0, saved = 0, priority = 1\<rparr>],
      events = []\<rparr>"

definition ex_flat :: app_state where
  "ex_flat =
     \<lparr>startDate = \<lparr>year = 2025, month0 = 0, day = 1\<rparr>, grossIncome = 150,
      deductions = [], fixedExpenses = [], discretionary = 0, strategy = ''flat'',
      debts = [plain_debt 1 ''A'' 100, plain_debt 2 ''B'' 100, plain_debt 3 ''C'' 0],
      goals = [\<lparr>goal_name = ''G'', targetAmount = 1000, startingSaved = 0, saved = 0, priority = 1\<rparr>],
      events = []\<rparr>"

definition ex_unpaid :: app_state where
  "ex_unpaid =
     \<lparr>startDate = \<lparr>year = 2025, month0 = 0, day = 1\<rparr>, grossIncome = 0,
      deductions = [], fixedExpenses = [], discretionary = 0, strategy = ''snowball'',
      debts = [\<lparr>debt_id = 1, debt_name = ''A'', balance = 1000, rate = 24, creditLimit = None,
                monthlyMin = 100, dueDay = Some 10\<rparr>],
      goals = [], events = []\<rparr>"

definition ex_paid :: app_state where
  "ex_paid =
     \<lparr>startDate = \<lparr>year = 2025, month0 = 0, day = 1\<rparr>, grossIncome = 5000,
      deductions = [], fixedExpenses = [], discretionary = 0, strategy = ''snowball'',
      debts = [\<lparr>debt_id = 1, debt_name = ''A'', balance = 1000, rate = 24, creditLimit = None,
                monthlyMin = 100, dueDay = Some 10\<rparr>],
      goals = [], events = []\<rparr>"

text \<open>What stays true of the run of \<open>ex_unpaid\<close>: a debt of 1000 at 24 percent and no cash at all.\<close>

definition unpaid_inv :: "sim \<Rightarrow> bool" where
  "unpaid_inv s =
     (carryOver s = 0 \<and> currentGoals s = [] \<and> total_paid s = 0
      \<and> (\<exists>b\<ge>1000. currentDebts s = [(hd (debts ex_unpaid))\<lparr>balance := b\<rparr>]
                    \<and> totalInterestPaid s = b - 1000))"

definition ex_early :: app_state where
  "ex_early =
     \<lparr>startDate = \<lparr>year = 2025, month0 = 0, day = 1\<rparr>, grossIncome = 200,
      deductions = [], fixedExpenses = [], discretionary = 0, strategy = ''snowball'',
      debts = [plain_debt 1 ''A'' 100], goals = [],
      events = [\<lparr>ev_name = ''bonus'', ev_date = \<lparr>year = 2024, month0 = 11, day = 31\<rparr>,
                 ev_amount = 50, ev_type = Income\<rparr>]\<rparr>"

definition ex_event :: app_state where
  "ex_event =
     \<lparr>startDate = \<lparr>year = 2025, month0 = 0, day = 1\<rparr>, grossIncome = 60,
      deductions = [], fixedExpenses = [], discretionary = 0, strategy = ''snowball'',
      debts = [plain_debt 1 ''A'' 100], goals = [],
      events = [\<lparr>ev_name = ''bonus'', ev_date = \<lparr>year = 2025, month0 = 0, day = 15\<rparr>,
                 ev_amount = 50, ev_type = Income\<rparr>]\<rparr>"

definition arrears_debt :: debt where
  "arrears_debt =
     \<lparr>debt_id = 1, debt_name = ''A'', balance = 1000, rate = 0, creditLimit = None,
      monthlyMin = 100, dueDay = Some 10\<rparr>"

definition ex_arrears :: app_state where
  "ex_arrears =
     \<lparr>startDate = \<lparr>year = 2025, month0 = 0, day = 10\<rparr>, grossIncome = 997 / 10,
      deductions = [], fixedExpenses = [], discretionary = 0, strategy = ''snowball'',
      debts = [arrears_debt], goals = [], events = []\<rparr>"

definition clamp_debt :: debt where
  "clamp_debt =
     \<lparr>debt_id = 7, debt_name = ''A'', balance = 1000, rate = 24, creditLimit = None,
      monthlyMin = 10, dueDay = Some 31\<rparr>"

definition ex_clamp :: app_state where
  "ex_clamp =
     \<lparr>startDate = \<lparr>year = 2025, month0 = 1, day = 28\<rparr>, grossIncome = 0,
      deductions = [], fixedExpenses = [], discretionary = 0, strategy = ''snowball'',
      debts = [clamp_debt], goals = [], events = []\<rparr>"

text \<open>
  The second period of \<open>ex_clamp\<close>: the queues before the rollover, the debts after
  interest accrual, and the debt's queue after the rollover.
\<close>

definition clamp_queues :: obligations where
  "clamp_queues = minObligations (state_after ex_clamp 1)"

definition clamp_debts :: "debt list" where
  "clamp_debts = debts_accrued (period_body ex_clamp (state_after ex_clamp 1))"

definition clamp_rolled :: "obligation list" where
  "clamp_rolled = snd (obs_rolled (period_body ex_clamp (state_after ex_clamp 1)) ! 0)"

definition ex_threshold :: app_state where
  "ex_threshold =
     \<lparr>startDate = \<lparr>year = 2025, month0 = 0, day = 1\<rparr>, grossIncome = 21 / 2,
      deductions = [], fixedExpenses = [], discretionary = 0, strategy = ''snowball'',
      debts = [plain_debt 1 ''B'' 20, plain_debt 2 ''A'' 10], goals = [], events = []\<rparr>"

text \<open>The second period of \<open>ex_arrears\<close> at the start of its settlement.\<close>

definition arrears_debts :: "debt list" where
  "arrears_debts = debts_accrued (period_body ex_arrears (state_after ex_arrears 1))"

definition arrears_queues :: obligations where
  "arrears_queues = obs_rolled (period_body ex_arrears (state_after ex_arrears 1))"

definition arrears_cash :: real where
  "arrears_cash = cash_start (period_body ex_arrears (state_after ex_arrears 1))"

definition arrears_entry :: min_entry where
  "arrears_entry = hd (debtsForMin arrears_debts arrears_queues)"

section \<open>Properties\<close>

subsection \<open>The loop and its iterates\<close>

lemma iteration_step [simp]: "iteration (period_step inp s) = iteration s + 1"
  by (simp add: period_step_def Let_def)

lemma iteration_funpow: "iteration ((period_step inp ^^ k) s) = iteration s + k"
  by (induction k) simp_all

lemma length_results_step:
  "length (simulationResults (period_step inp s)) = length (simulationResults s) + 1"
  by (simp add: period_step_def Let_def)

lemma length_results_funpow:
  "length (simulationResults ((period_step inp ^^ k) s)) = length (simulationResults s) + k"
  by (induction k) (simp_all add: length_results_step)

lemma state_after_Suc: "state_after inp (Suc k) = period_step inp (state_after inp k)"
  by simp

lemma state_after_0: "state_after inp 0 = init_sim inp"
  by simp

lemma state_after_funpow: "state_after inp k = (period_step inp ^^ k) (init_sim inp)"
  by (induction k) simp_all

declare state_after.simps [simp del]

lemma sim_loop_iterates:
  "iteration s \<le> 120 \<Longrightarrow>
   \<exists>m. sim_loop inp s = (period_step inp ^^ m) s \<and> iteration s + m \<le> 120
      \<and> (\<forall>k<m. continue_loop ((period_step inp ^^ k) s))
      \<and> \<not> continue_loop ((period_step inp ^^ m) s)"
proof (induction inp s rule: sim_loop.induct)
  case (1 inp s)
  show ?case
  proof (cases "continue_loop s")
    case False
    then have "sim_loop inp s = (period_step inp ^^ 0) s"
      by (simp add: sim_loop.simps[of inp s])
    with False show ?thesis
      using 1(2) by (intro exI[of _ 0]) simp
  next
    case True
    then have lt: "iteration s < 120" by (simp add: continue_loop_def)
    then have "iteration (period_step inp s) \<le> 120" by simp
    from 1(1)[OF True this] obtain m where
      m: "sim_loop inp (period_step inp s) = (period_step inp ^^ m) (period_step inp s)"
         "iteration (period_step inp s) + m \<le> 120"
         "\<forall>k<m. continue_loop ((period_step inp ^^ k) (period_step inp s))"
         "\<not> continue_loop ((period_step inp ^^ m) (period_step inp s))"
      by blast
    have a: "sim_loop inp s = (period_step inp ^^ Suc m) s"
      using True m(1) by (simp add: funpow_swap1 sim_loop.simps[of inp s])
    have b: "iteration s + Suc m \<le> 120" using m(2) by simp
    have c: "\<forall>k<Suc m. continue_loop ((period_step inp ^^ k) s)"
    proof (intro allI impI)
      fix k assume "k < Suc m"
      show "continue_loop ((period_step inp ^^ k) s)"
      proof (cases k)
        case 0 then show ?thesis using True by simp
      next
        case (Suc j)
        then have "j < m" using \<open>k < Suc m\<close> by simp
        then show ?thesis using m(3) Suc by (simp add: funpow_swap1)
      qed
    qed
    have d: "\<not> continue_loop ((period_step inp ^^ Suc m) s)"
      using m(4) by (simp add: funpow_swap1)
    from a b c d show ?thesis by blast
  qed
qed

text \<open>The run is some number of iterations, at most 120, of the loop body.\<close>

lemma run_is_state_after:
  "\<exists>n\<le>120. runSimulation inp = state_after inp n
      \<and> (\<forall>k<n. continue_loop (state_after inp k))
      \<and> \<not> continue_loop (state_after inp n)"
proof -
  have "iteration (init_sim inp) \<le> 120" by (simp add: init_sim_def)
  from sim_loop_iterates[OF this, of inp] show ?thesis
    unfolding runSimulation_def state_after_funpow
    by (auto simp: init_sim_def)
qed

lemma iteration_state_after: "iteration (state_after inp k) = k"
  by (simp add: state_after_funpow iteration_funpow init_sim_def)

lemma length_results_state_after: "length (simulationResults (state_after inp k)) = k"
  by (simp add: state_after_funpow length_results_funpow init_sim_def)

subsection \<open>Termination and the exit condition\<close>

lemma foldl_plus_sum_list: "foldl (\<lambda>t x. t + f x) t0 xs = t0 + sum_list (map f xs)"
  for f :: "'a \<Rightarrow> real"
  by (induction xs arbitrary: t0) simp_all

lemma total_balance_total_debt: "total_balance ds = total_debt ds"
  by (simp add: total_balance_def total_debt_def foldl_plus_sum_list)

lemma goal_remaining_total_shortfall: "goal_remaining gs = total_shortfall gs"
  by (simp add: goal_remaining_def total_shortfall_def foldl_plus_sum_list)

lemma debtRemaining_state_after:
  "debtRemaining (state_after inp k) = total_debt (currentDebts (state_after inp k))"
  by (cases k)
     (simp_all add: state_after_0 state_after_Suc init_sim_def period_step_def Let_def
        total_balance_total_debt)

lemma totalGoalRemaining_state_after:
  "totalGoalRemaining (state_after inp k) = total_shortfall (currentGoals (state_after inp k))"
  by (cases k)
     (simp_all add: state_after_0 state_after_Suc init_sim_def period_step_def Let_def
        goal_remaining_total_shortfall)

text \<open>
  Claim C3.  \<open>runSimulation\<close> is a total function, so the loop always ends.  The run
  consists of \<open>n \<le> 120\<close> iterations of the loop body.  Before each of them the total
  remaining balance of the debts exceeded 5 or the total remaining shortfall of the goals
  exceeded 5; after the last one either both are at most 5 or \<open>n\<close> is the cap of 120: the
  loop leaves at the first moment its exit condition holds.  The two quantities the loop
  tests are, in every state, the sum of the balances of the current debts and the sum of
  what the current goals still lack.
\<close>

theorem simulation_terminates_within_cap:
  "\<exists>n\<le>120. runSimulation inp = state_after inp n
      \<and> iteration (runSimulation inp) = n
      \<and> length (simulationResults (runSimulation inp)) = n
      \<and> (\<forall>k<n. total_debt (currentDebts (state_after inp k)) > 5
                \<or> total_shortfall (currentGoals (state_after inp k)) > 5)
      \<and> (n = 120 \<or> (total_debt (currentDebts (runSimulation inp)) \<le> 5
                     \<and> total_shortfall (currentGoals (runSimulation inp)) \<le> 5))
      \<and> (\<forall>k. debtRemaining (state_after inp k) = total_debt (currentDebts (state_after inp k))
              \<and> totalGoalRemaining (state_after inp k)
                  = total_shortfall (currentGoals (state_after inp k)))"
proof -
  from run_is_state_after[of inp] obtain n where
    n: "n \<le> 120" "runSimulation inp = state_after inp n"
       "\<forall>k<n. continue_loop (state_after inp k)"
       "\<not> continue_loop (state_after inp n)"
    by blast
  have 3: "iteration (runSimulation inp) = n"
    by (simp add: n(2) iteration_state_after)
  have 4: "length (simulationResults (runSimulation inp)) = n"
    by (simp add: n(2) length_results_state_after)
  have 5: "\<forall>k<n. total_debt (currentDebts (state_after inp k)) > 5
                 \<or> total_shortfall (currentGoals (state_after inp k)) > 5"
    using n(3)
    by (simp add: continue_loop_def debtRemaining_state_after totalGoalRemaining_state_after)
  have 6: "n = 120 \<or> (total_debt (currentDebts (runSimulation inp)) \<le> 5
                      \<and> total_shortfall (currentGoals (runSimulation inp)) \<le> 5)"
    using n(4) n(1)
    unfolding n(2) continue_loop_def iteration_state_after debtRemaining_state_after
      totalGoalRemaining_state_after
    by auto
  have 7: "\<forall>k. debtRemaining (state_after inp k) = total_debt (currentDebts (state_after inp k))
              \<and> totalGoalRemaining (state_after inp k)
                  = total_shortfall (currentGoals (state_after inp k))"
    by (simp add: debtRemaining_state_after totalGoalRemaining_state_after)
  from n(1) n(2) 3 4 5 6 7 show ?thesis by blast
qed

theorem simulation_terminates_within_cap_witness:
  "iteration (runSimulation ex_goal) = 2
   \<and> total_debt (currentDebts (state_after ex_goal 0)) > 5
   \<and> total_debt (currentDebts (state_after ex_goal 1)) \<le> 5
   \<and> total_shortfall (currentGoals (state_after ex_goal 1)) > 5
   \<and> total_debt (currentDebts (runSimulation ex_goal)) \<le> 5
   \<and> total_shortfall (currentGoals (runSimulation ex_goal)) \<le> 5"
proof -
  have c0: "total_debt (currentDebts (state_after ex_goal 0)) > 5" by code_simp
  have c1: "total_debt (currentDebts (state_after ex_goal 1)) \<le> 5
            \<and> total_shortfall (currentGoals (state_after ex_goal 1)) > 5" by code_simp
  have c2: "\<not> (total_debt (currentDebts (state_after ex_goal 2)) > 5
               \<or> total_shortfall (currentGoals (state_after ex_goal 2)) > 5)" by code_simp
  from simulation_terminates_within_cap[of ex_goal] obtain n where
    n: "n \<le> 120" "runSimulation ex_goal = state_after ex_goal n"
       "iteration (runSimulation ex_goal) = n"
       "\<forall>k<n. total_debt (currentDebts (state_after ex_goal k)) > 5
               \<or> total_shortfall (currentGoals (state_after ex_goal k)) > 5"
       "n = 120 \<or> (total_debt (currentDebts (runSimulation ex_goal)) \<le> 5
                    \<and> total_shortfall (currentGoals (runSimulation ex_goal)) \<le> 5)"
    by blast
  have "\<not> 2 < n" using n(4) c2 by blast
  then have le: "n \<le> 2" by simp
  have "n \<noteq> 0"
  proof
    assume "n = 0"
    with n(5) n(2) c0 show False by simp
  qed
  moreover have "n \<noteq> 1"
  proof
    assume "n = 1"
    with n(5) n(2) c1 show False by simp
  qed
  ultimately have n2: "n = 2" using le by simp
  with n(5) have "total_debt (currentDebts (runSimulation ex_goal)) \<le> 5
                  \<and> total_shortfall (currentGoals (runSimulation ex_goal)) \<le> 5" by simp
  with n(3) n2 c0 c1 show ?thesis by simp
qed

subsection \<open>Cash is conserved by every phase\<close>

lemma pay_ob_cash: "fst (pay_ob i st) + snd (snd (snd (pay_ob i st))) = fst st + snd (snd (snd st))"
  by (cases st) (simp add: pay_ob_def Let_def)

lemma pay_obs_cash:
  "fst (pay_obs js st) + snd (snd (snd (pay_obs js st))) = fst st + snd (snd (snd st))"
  by (induction js arbitrary: st) (simp_all add: pay_ob_cash)

lemma settle_debt_cash: "ss_cash (settle_debt st e) + ss_paid (settle_debt st e) = ss_cash st + ss_paid st"
proof -
  let ?d = "ss_debts st ! me_debt e"
  let ?obs = "obs_of (ss_obs st) (debt_id ?d)"
  obtain c b ob p where r: "pay_obs (sortedObs ?obs) (ss_cash st, balance ?d, ?obs, ss_paid st) = (c, b, ob, p)"
    by (metis prod_cases4)
  from pay_obs_cash[of "sortedObs ?obs" "(ss_cash st, balance ?d, ?obs, ss_paid st)"] r
  show ?thesis by (simp add: settle_debt_def Let_def)
qed

lemma foldl_settle_cash:
  "ss_cash (foldl settle_debt st es) + ss_paid (foldl settle_debt st es) = ss_cash st + ss_paid st"
  by (induction es arbitrary: st) (simp_all add: settle_debt_cash)

lemma settle_minimums_cash:
  "ss_cash (settle_minimums cash ds mo) = cash - ss_paid (settle_minimums cash ds mo)"
  using foldl_settle_cash[of "\<lparr>ss_cash = cash, ss_debts = ds, ss_obs = mo, ss_paid = 0\<rparr>" "debtsForMin ds mo"]
  by (simp add: settle_minimums_def)

lemma pay_debt_cash:
  "fst (pay_debt i pay st) + log_total (snd (snd (pay_debt i pay st))) = fst st + log_total (snd (snd st))"
  by (cases st) (simp add: pay_debt_def log_total_def)

lemma pay_extra_cash:
  "fst (pay_extra js st) + log_total (snd (snd (pay_extra js st))) = fst st + log_total (snd (snd st))"
proof (induction js arbitrary: st)
  case Nil then show ?case by simp
next
  case (Cons i js)
  obtain extra ds lg where st: "st = (extra, ds, lg)" by (cases st)
  show ?case
    using Cons[of st] Cons[of "pay_debt i (min extra (balance (ds ! i))) st"]
          pay_debt_cash[of i "min extra (balance (ds ! i))" st]
    by (simp add: st Let_def)
qed

lemma pay_flat_cash:
  "fst (pay_flat tot js st) + log_total (snd (snd (pay_flat tot js st))) = fst st + log_total (snd (snd st))"
proof (induction js arbitrary: st)
  case Nil then show ?case by simp
next
  case (Cons i js)
  obtain extra ds lg where st: "st = (extra, ds, lg)" by (cases st)
  let ?pay = "min (extra * (balance (ds ! i) / tot)) (balance (ds ! i))"
  show ?case
    using Cons[of st] Cons[of "pay_debt i ?pay st"] pay_debt_cash[of i ?pay st]
    by (simp add: st Let_def)
qed

lemma strategy_allocation_cash:
  "fst (strategy_allocation sel cash ds) = cash - log_total (snd (snd (strategy_allocation sel cash ds)))"
  using pay_flat_cash[of _ _ "(cash, ds, [])"] pay_extra_cash[of _ "(cash, ds, [])"]
  by (simp add: strategy_allocation_def Let_def log_total_def algebra_simps)

lemma pay_goals_cash:
  "fst (pay_goals js st) + log_total (snd (snd (pay_goals js st))) = fst st + log_total (snd (snd st))"
proof (induction js arbitrary: st)
  case Nil then show ?case by simp
next
  case (Cons i js)
  obtain extra gs lg where st: "st = (extra, gs, lg)" by (cases st)
  let ?pay = "min (targetAmount (gs ! i) - saved (gs ! i)) extra"
  show ?case
    using Cons[of st]
      Cons[of "(extra - ?pay, gs[i := (gs ! i)\<lparr>saved := saved (gs ! i) + ?pay\<rparr>], lg @ [(goal_name (gs ! i), ?pay)])"]
    by (simp add: st Let_def log_total_def)
qed

lemma fund_goals_cash:
  "fst (fund_goals dr cash gs) = cash - log_total (snd (snd (fund_goals dr cash gs)))"
  using pay_goals_cash[of _ "(cash, gs, [])"]
  by (simp add: fund_goals_def Let_def log_total_def algebra_simps)

lemma body_cash_start:
  "cash_start (period_body inp s) =
     periodIncome (period_body inp s) - periodExpense (period_body inp s) + carryOver s"
  by (simp add: period_body_def Let_def)

lemma body_debts_accrued:
  "debts_accrued (period_body inp s) = fst (accrue_interest (currentDebts s) (totalInterestPaid s))"
  by (simp add: period_body_def Let_def)

lemma body_interest_total:
  "interest_total (period_body inp s) = snd (accrue_interest (currentDebts s) (totalInterestPaid s))"
  by (simp add: period_body_def Let_def)

lemma body_obs_rolled:
  "obs_rolled (period_body inp s) =
     rollover (currentDate s) (debts_accrued (period_body inp s)) (minObligations s)"
  by (simp add: period_body_def Let_def)

lemma body_settled:
  "settled (period_body inp s) =
     settle_minimums (cash_start (period_body inp s)) (debts_accrued (period_body inp s))
       (obs_rolled (period_body inp s))"
  by (simp add: period_body_def Let_def)

lemma body_allocated:
  "allocated (period_body inp s) =
     strategy_allocation (strategy inp) (ss_cash (settled (period_body inp s)))
       (ss_debts (settled (period_body inp s)))"
  by (simp add: period_body_def Let_def)

lemma body_debts_clean:
  "debts_clean (period_body inp s) = cleanup (fst (snd (allocated (period_body inp s))))"
  by (simp add: period_body_def Let_def)

lemma body_funded:
  "funded (period_body inp s) =
     fund_goals (total_balance (debts_clean (period_body inp s)))
       (fst (allocated (period_body inp s))) (currentGoals s)"
  by (simp add: period_body_def Let_def)

lemma cash_after_period:
  "fst (funded (period_body inp s)) =
     periodIncome (period_body inp s) - periodExpense (period_body inp s) + carryOver s
       - ss_paid (settled (period_body inp s))
       - log_total (snd (snd (allocated (period_body inp s))))
       - log_total (snd (snd (funded (period_body inp s))))"
proof -
  let ?b = "period_body inp s"
  have 1: "ss_cash (settled ?b) = cash_start ?b - ss_paid (settled ?b)"
    by (subst (1 2) body_settled) (rule settle_minimums_cash)
  have 2: "fst (allocated ?b) = ss_cash (settled ?b) - log_total (snd (snd (allocated ?b)))"
    by (subst (1 2) body_allocated) (rule strategy_allocation_cash)
  have 3: "fst (funded ?b) = fst (allocated ?b) - log_total (snd (snd (funded ?b)))"
    by (subst (1 2) body_funded) (rule fund_goals_cash)
  show ?thesis
    unfolding 3 2 1 body_cash_start ..
qed

lemma step_carryOver: "carryOver (period_step inp s) = max 0 (fst (funded (period_body inp s)))"
  by (simp add: period_step_def Let_def)

lemma step_last_row:
  "last (simulationResults (period_step inp s)) =
     \<lparr>row_id = iteration s + 1, rowDate = currentDate s,
      income = periodIncome (period_body inp s), expenses = periodExpense (period_body inp s),
      initialCash = cash_start (period_body inp s),
      row_paidMins = ss_paid (settled (period_body inp s)),
      strategyDetails = snd (snd (allocated (period_body inp s))),
      savingDetails = snd (snd (funded (period_body inp s))),
      endBalance = total_balance (debts_clean (period_body inp s)),
      pocket = max 0 (fst (funded (period_body inp s)))\<rparr>"
  by (simp add: period_step_def Let_def)

subsection \<open>Carry-over\<close>

text \<open>
  Claim C5, as amended.  The carry-over handed to the next period is the cash that
  remains after cash aggregation, minimum-payment settlement, strategy allocation and
  goal funding (the period's income minus its expenses plus the previous carry-over,
  minus everything paid to minimums, to the strategy and to goals), clamped below at 0;
  it is also the \<open>pocket\<close> reported in the period's row.
\<close>

theorem carry_over_is_clamped_remainder:
  "carryOver (period_step inp s) =
     max 0 (income (last (simulationResults (period_step inp s)))
            - expenses (last (simulationResults (period_step inp s)))
            + carryOver s
            - row_paidMins (last (simulationResults (period_step inp s)))
            - log_total (strategyDetails (last (simulationResults (period_step inp s))))
            - log_total (savingDetails (last (simulationResults (period_step inp s)))))
   \<and> carryOver (period_step inp s) = max 0 (fst (funded (period_body inp s)))
   \<and> pocket (last (simulationResults (period_step inp s))) = carryOver (period_step inp s)"
  unfolding step_last_row step_carryOver
  by (simp add: cash_after_period[symmetric])

theorem carry_over_is_clamped_remainder_witness:
  "carryOver (period_step ex_single (init_sim ex_single))
     = max 0 (fst (funded (period_body ex_single (init_sim ex_single))))
   \<and> fst (funded (period_body ex_single (init_sim ex_single))) = 100"
proof -
  have "fst (funded (period_body ex_single (init_sim ex_single))) = 100" by code_simp
  with carry_over_is_clamped_remainder[of ex_single "init_sim ex_single"]
  show ?thesis by blast
qed

text \<open>
  Claim C5 as stated fails: with no income and a fixed expense of 100 the first period
  ends with a cash remainder of -100, and the carry-over is 0, not -100.
\<close>

theorem carry_over_counterexample:
  "fst (funded (period_body ex_deficit (init_sim ex_deficit))) = - 100
   \<and> carryOver (period_step ex_deficit (init_sim ex_deficit)) = 0
   \<and> carryOver (period_step ex_deficit (init_sim ex_deficit))
       \<noteq> fst (funded (period_body ex_deficit (init_sim ex_deficit)))"
  by code_simp

subsection \<open>Goal funding\<close>

lemma step_currentGoals: "currentGoals (period_step inp s) = fst (snd (funded (period_body inp s)))"
  by (simp add: period_step_def Let_def)

lemma step_currentDebts: "currentDebts (period_step inp s) = debts_clean (period_body inp s)"
  by (simp add: period_step_def Let_def)

lemma step_debtRemaining:
  "debtRemaining (period_step inp s) = total_balance (debts_clean (period_body inp s))"
  by (simp add: period_step_def Let_def)

lemma fund_goals_blocked: "dr > 5 \<Longrightarrow> fund_goals dr cash gs = (cash, gs, [])"
  by (simp add: fund_goals_def)

text \<open>
  Claim C6.  In a period after which the aggregate debt balance (after that period's
  payments and the balance cleanup) is above 5, no goal changes: every saved amount
  is what it was, and the period's saving log is empty.  Funding can therefore only happen
  in periods that end with an aggregate balance of at most 5, whatever the individual
  balances are.
\<close>

theorem goals_wait_for_debt:
  assumes "total_balance (currentDebts (period_step inp s)) > 5"
  shows "currentGoals (period_step inp s) = currentGoals s
         \<and> map saved (currentGoals (period_step inp s)) = map saved (currentGoals s)
         \<and> savingDetails (last (simulationResults (period_step inp s))) = []
         \<and> debtRemaining (period_step inp s) = total_balance (currentDebts (period_step inp s))"
proof -
  from assms have "total_balance (debts_clean (period_body inp s)) > 5"
    by (simp add: step_currentDebts)
  then have "funded (period_body inp s) = (fst (allocated (period_body inp s)), currentGoals s, [])"
    by (subst body_funded) (rule fund_goals_blocked)
  then show ?thesis
    by (simp add: step_currentGoals step_last_row step_debtRemaining step_currentDebts)
qed

theorem goals_wait_for_debt_witness:
  "total_balance (currentDebts (period_step ex_flat (init_sim ex_flat))) > 5
   \<and> balance (currentDebts (period_step ex_flat (init_sim ex_flat)) ! 2) = 0
   \<and> fst (allocated (period_body ex_flat (init_sim ex_flat))) > 1
   \<and> currentGoals (period_step ex_flat (init_sim ex_flat)) = currentGoals (init_sim ex_flat)"
proof -
  have h: "total_balance (currentDebts (period_step ex_flat (init_sim ex_flat))) > 5"
    by code_simp
  have z: "balance (currentDebts (period_step ex_flat (init_sim ex_flat)) ! 2) = 0"
    by code_simp
  have c: "fst (allocated (period_body ex_flat (init_sim ex_flat))) > 1"
    by code_simp
  from goals_wait_for_debt[OF h] h z c show ?thesis by blast
qed

subsection \<open>The pocket\<close>

lemma carryOver_nonneg: "0 \<le> carryOver (state_after inp k)"
  by (cases k) (simp_all add: state_after_0 state_after_Suc init_sim_def step_carryOver)

text \<open>
  Claim C10.  The carry-over is 0 before the first period and is never negative after any
  number of periods.  A period whose remaining cash is negative (or zero) hands over
  exactly 0, so the next period starts from its own income minus expenses alone; a
  non-negative remainder is handed over in full.  The row's \<open>pocket\<close> is that carry-over.
\<close>

theorem pocket_never_negative:
  "carryOver (state_after inp 0) = 0
   \<and> 0 \<le> carryOver (state_after inp k)
   \<and> (fst (funded (period_body inp (state_after inp k))) \<le> 0
        \<longrightarrow> carryOver (state_after inp (Suc k)) = 0
            \<and> cash_start (period_body inp (state_after inp (Suc k)))
                = periodIncome (period_body inp (state_after inp (Suc k)))
                  - periodExpense (period_body inp (state_after inp (Suc k))))
   \<and> (0 \<le> fst (funded (period_body inp (state_after inp k)))
        \<longrightarrow> carryOver (state_after inp (Suc k)) = fst (funded (period_body inp (state_after inp k))))
   \<and> pocket (last (simulationResults (state_after inp (Suc k)))) = carryOver (state_after inp (Suc k))"
proof -
  have 1: "carryOver (state_after inp 0) = 0" by (simp add: state_after_0 init_sim_def)
  have 3: "fst (funded (period_body inp (state_after inp k))) \<le> 0
        \<longrightarrow> carryOver (state_after inp (Suc k)) = 0
            \<and> cash_start (period_body inp (state_after inp (Suc k)))
                = periodIncome (period_body inp (state_after inp (Suc k)))
                  - periodExpense (period_body inp (state_after inp (Suc k)))"
    by (simp add: state_after_Suc step_carryOver body_cash_start)
  have 4: "0 \<le> fst (funded (period_body inp (state_after inp k)))
        \<longrightarrow> carryOver (state_after inp (Suc k)) = fst (funded (period_body inp (state_after inp k)))"
    by (simp add: state_after_Suc step_carryOver)
  have 5: "pocket (last (simulationResults (state_after inp (Suc k)))) = carryOver (state_after inp (Suc k))"
    by (simp add: state_after_Suc step_carryOver step_last_row)
  from 1 carryOver_nonneg[of inp k] 3 4 5 show ?thesis by blast
qed

theorem pocket_never_negative_witness:
  "fst (funded (period_body ex_deficit (state_after ex_deficit 0))) \<le> 0
   \<and> carryOver (state_after ex_deficit (Suc 0)) = 0
   \<and> 0 \<le> fst (funded (period_body ex_single (state_after ex_single 0)))
   \<and> carryOver (state_after ex_single (Suc 0)) = 100"
proof -
  have a: "fst (funded (period_body ex_deficit (state_after ex_deficit 0))) \<le> 0"
    unfolding state_after_0 by code_simp
  have b: "fst (funded (period_body ex_single (state_after ex_single 0))) = 100"
    unfolding state_after_0 by code_simp
  from pocket_never_negative[of ex_deficit 0] a
  have c: "carryOver (state_after ex_deficit (Suc 0)) = 0" by blast
  from pocket_never_negative[of ex_single 0] b
  have d: "carryOver (state_after ex_single (Suc 0)) = 100" by simp
  from a b c d show ?thesis by simp
qed

subsection \<open>Interest accrual\<close>

lemma accrue_interest_total: "snd (accrue_interest ds tip) = tip + period_charge ds"
  by (induction ds arbitrary: tip)
     (simp_all add: period_charge_def totalCharge_def case_prod_beta)

lemma accrue_interest_balances:
  "map balance (fst (accrue_interest ds tip)) =
     map (\<lambda>d. if balance d \<le> 0.5 then 0 else balance d + (intereses d + iva d)) ds"
  by (induction ds arbitrary: tip) (simp_all add: totalCharge_def case_prod_beta)

lemma step_totalInterestPaid:
  "totalInterestPaid (period_step inp s) = totalInterestPaid s + period_charge (currentDebts s)"
  by (simp add: period_step_def Let_def body_interest_total accrue_interest_total)

lemma totalInterestPaid_state_after:
  "totalInterestPaid (state_after inp n) = (\<Sum>k<n. period_charge (currentDebts (state_after inp k)))"
  by (induction n) (simp_all add: state_after_0 state_after_Suc init_sim_def step_totalInterestPaid)

lemma run_iteration: "runSimulation inp = state_after inp (iteration (runSimulation inp))"
  using run_is_state_after[of inp] by (auto simp: iteration_state_after)

text \<open>
  Claim C9, as amended.  The scalar the engine reports (\<open>totalInterestPaid\<close>) is the sum,
  over all periods of the run and all debts with a balance above 0.5 at the start of the
  period, of the interest and surcharge accrued onto the balance in that period; each such
  balance grows by exactly that charge.
\<close>

theorem total_interest_is_accrued:
  "totalInterestPaid (runSimulation inp)
     = (\<Sum>k<iteration (runSimulation inp). period_charge (currentDebts (state_after inp k)))
   \<and> map balance (debts_accrued (period_body inp s))
     = map (\<lambda>d. if balance d \<le> 0.5 then 0 else balance d + (intereses d + iva d)) (currentDebts s)"
proof -
  have "totalInterestPaid (runSimulation inp)
          = totalInterestPaid (state_after inp (iteration (runSimulation inp)))"
    using run_iteration[of inp] by simp
  then show ?thesis
    by (simp add: totalInterestPaid_state_after body_debts_accrued accrue_interest_balances)
qed

subsection \<open>Without cash nothing is paid\<close>

lemma pay_obs_no_cash: "fst st \<le> 0 \<Longrightarrow> pay_obs js st = st"
  by (cases js) simp_all

lemma settle_debt_no_cash:
  assumes "ss_cash st \<le> 0"
  shows "ss_cash (settle_debt st e) = ss_cash st \<and> ss_paid (settle_debt st e) = ss_paid st
         \<and> ss_debts (settle_debt st e) = ss_debts st"
  using assms by (simp add: settle_debt_def Let_def pay_obs_no_cash)

lemma foldl_settle_no_cash:
  "ss_cash st \<le> 0 \<Longrightarrow>
   ss_cash (foldl settle_debt st es) = ss_cash st \<and> ss_paid (foldl settle_debt st es) = ss_paid st
   \<and> ss_debts (foldl settle_debt st es) = ss_debts st"
proof (induction es arbitrary: st)
  case Nil then show ?case by simp
next
  case (Cons e es)
  from settle_debt_no_cash[OF Cons.prems, of e]
  have 1: "ss_cash (settle_debt st e) = ss_cash st" "ss_paid (settle_debt st e) = ss_paid st"
          "ss_debts (settle_debt st e) = ss_debts st" by simp_all
  then have "ss_cash (settle_debt st e) \<le> 0" using Cons.prems by simp
  from Cons.IH[OF this] 1 show ?case by simp
qed

lemma settle_minimums_no_cash:
  "cash \<le> 0 \<Longrightarrow>
   ss_cash (settle_minimums cash ds mo) = cash \<and> ss_paid (settle_minimums cash ds mo) = 0
   \<and> ss_debts (settle_minimums cash ds mo) = ds"
  using foldl_settle_no_cash[of "\<lparr>ss_cash = cash, ss_debts = ds, ss_obs = mo, ss_paid = 0\<rparr>"
          "debtsForMin ds mo"]
  by (simp add: settle_minimums_def)

lemma strategy_allocation_no_cash: "cash \<le> 1 \<Longrightarrow> strategy_allocation sel cash ds = (cash, ds, [])"
  by (simp add: strategy_allocation_def)

lemma total_paid_step:
  "total_paid (period_step inp s) =
     total_paid s + (ss_paid (settled (period_body inp s))
                     + log_total (snd (snd (allocated (period_body inp s)))))"
  by (simp add: total_paid_def period_step_def Let_def)

lemma unpaid_inv_init: "unpaid_inv (init_sim ex_unpaid)"
  by (simp add: unpaid_inv_def init_sim_def ex_unpaid_def total_paid_def)

lemma unpaid_inv_step:
  assumes "unpaid_inv s"
  shows "unpaid_inv (period_step ex_unpaid s) \<and> totalInterestPaid (period_step ex_unpaid s) > 0"
proof -
  let ?D = "hd (debts ex_unpaid)"
  let ?b = "period_body ex_unpaid s"
  from assms obtain b where b: "b \<ge> 1000" "currentDebts s = [?D\<lparr>balance := b\<rparr>]"
      "totalInterestPaid s = b - 1000"
    and c: "carryOver s = 0" and g: "currentGoals s = []" and p: "total_paid s = 0"
    by (auto simp: unpaid_inv_def)
  let ?b' = "b + b * 29 / 2500"
  have cs: "cash_start ?b = 0"
    by (simp add: period_body_def Let_def cash_aggregation_def baseNet_def baseFixed_def
          ex_unpaid_def c)
  have da: "debts_accrued ?b = [?D\<lparr>balance := ?b'\<rparr>]"
    using b(1) by (simp add: body_debts_accrued b(2) totalCharge_def intereses_def iva_def ex_unpaid_def)
  have it: "interest_total ?b = ?b' - 1000"
    using b(1) by (simp add: body_interest_total b(2) b(3) totalCharge_def intereses_def iva_def
          ex_unpaid_def)
  have st: "ss_cash (settled ?b) = 0" "ss_paid (settled ?b) = 0" "ss_debts (settled ?b) = debts_accrued ?b"
  proof -
    have e: "settled ?b = settle_minimums 0 (debts_accrued ?b) (obs_rolled ?b)"
      by (subst body_settled) (simp add: cs)
    show "ss_cash (settled ?b) = 0" "ss_paid (settled ?b) = 0"
         "ss_debts (settled ?b) = debts_accrued ?b"
      unfolding e using settle_minimums_no_cash[of 0 "debts_accrued ?b" "obs_rolled ?b"]
      by simp_all
  qed
  have al: "allocated ?b = (0, debts_accrued ?b, [])"
    by (simp add: body_allocated st strategy_allocation_no_cash)
  have dc: "debts_clean ?b = [?D\<lparr>balance := ?b'\<rparr>]"
    using b(1) by (simp add: body_debts_clean al da cleanup_def)
  have fu: "funded ?b = (0, [], [])"
    by (simp add: body_funded al g fund_goals_def)
  have 1: "carryOver (period_step ex_unpaid s) = 0" by (simp add: step_carryOver fu)
  have 2: "currentGoals (period_step ex_unpaid s) = []" by (simp add: step_currentGoals fu)
  have 3: "total_paid (period_step ex_unpaid s) = 0"
    by (simp add: total_paid_step p st al log_total_def)
  have 4: "currentDebts (period_step ex_unpaid s) = [?D\<lparr>balance := ?b'\<rparr>]"
    by (simp add: step_currentDebts dc)
  have 5: "totalInterestPaid (period_step ex_unpaid s) = ?b' - 1000"
    by (simp add: period_step_def Let_def it)
  have 6: "?b' \<ge> 1000" "?b' - 1000 > 0" using b(1) by simp_all
  have "\<exists>x\<ge>1000. currentDebts (period_step ex_unpaid s) = [?D\<lparr>balance := x\<rparr>]
                  \<and> totalInterestPaid (period_step ex_unpaid s) = x - 1000"
    using 4 5 6(1) by (intro exI[of _ "?b'"]) simp
  with 1 2 3 have "unpaid_inv (period_step ex_unpaid s)"
    unfolding unpaid_inv_def by blast
  moreover have "totalInterestPaid (period_step ex_unpaid s) > 0"
    using 5 6(2) by simp
  ultimately show ?thesis by blast
qed

lemma unpaid_inv_state_after: "unpaid_inv (state_after ex_unpaid k)"
  by (induction k) (simp_all add: state_after_0 state_after_Suc unpaid_inv_init unpaid_inv_step)

text \<open>
  Claim C9 as stated fails: with a debt of 1000 at 24 percent and no cash at all, no
  payment is ever made in the run, so no interest is paid off, yet the reported scalar
  is positive.
\<close>

theorem total_interest_counterexample:
  "totalInterestPaid (runSimulation ex_unpaid) > 0 \<and> total_paid (runSimulation ex_unpaid) = 0"
proof -
  from run_is_state_after[of ex_unpaid] obtain n where
    n: "runSimulation ex_unpaid = state_after ex_unpaid n"
       "\<not> continue_loop (state_after ex_unpaid n)" by blast
  have "continue_loop (state_after ex_unpaid 0)"
    by (simp add: state_after_0 continue_loop_def init_sim_def ex_unpaid_def total_balance_def)
  with n(2) obtain m where m: "n = Suc m" by (cases n) auto
  have "unpaid_inv (state_after ex_unpaid m)" by (rule unpaid_inv_state_after)
  from unpaid_inv_step[OF this] show ?thesis
    by (simp add: n(1) m state_after_Suc unpaid_inv_def)
qed

theorem total_interest_is_accrued_witness:
  "iteration (runSimulation ex_paid) = 1
   \<and> totalInterestPaid (runSimulation ex_paid) = period_charge (debts ex_paid)
   \<and> period_charge (debts ex_paid) = 58 / 5"
proof -
  have s1: "state_after ex_paid 1 = period_step ex_paid (init_sim ex_paid)"
    by (simp add: state_after.simps)
  have c0: "continue_loop (state_after ex_paid 0)" unfolding state_after_0 by code_simp
  have c1: "\<not> continue_loop (state_after ex_paid 1)" unfolding s1 by code_simp
  from run_is_state_after[of ex_paid] obtain n where
    n: "runSimulation ex_paid = state_after ex_paid n"
       "\<forall>k<n. continue_loop (state_after ex_paid k)"
       "\<not> continue_loop (state_after ex_paid n)" by blast
  have "n \<noteq> 0"
  proof
    assume "n = 0"
    with n(3) c0 show False by simp
  qed
  moreover have "\<not> 1 < n" using n(2) c1 by blast
  ultimately have n1: "n = 1" by simp
  have it: "iteration (runSimulation ex_paid) = 1" by (simp add: n(1) n1 iteration_state_after)
  have pc: "period_charge (debts ex_paid) = 58 / 5" by code_simp
  have d0: "currentDebts (state_after ex_paid 0) = debts ex_paid"
    by (simp add: state_after_0 init_sim_def)
  from total_interest_is_accrued[of ex_paid] it
  have "totalInterestPaid (runSimulation ex_paid) = period_charge (currentDebts (state_after ex_paid 0))"
    by simp
  with it pc d0 show ?thesis by simp
qed

subsection \<open>The clock and the event windows\<close>

lemma days_in_month_bounds: "28 \<le> days_in_month y m \<and> days_in_month y m \<le> 31"
  by (simp add: days_in_month_def)

lemma next_date_ok: "date_ok d \<Longrightarrow> date_ok (next_date d)"
  by (cases "month0 d = 11")
     (auto simp: date_ok_def next_date_def js_date_def Let_def days_in_month_def)

lemma next_date_gt: "date_ok d \<Longrightarrow> date_key d < date_key (next_date d)"
proof -
  assume ok: "date_ok d"
  have b: "28 \<le> days_in_month (year d) (month0 d)" "days_in_month (year d) (month0 d) \<le> 31"
    by (simp_all add: days_in_month_bounds)
  show ?thesis
  proof (cases "month0 d = 11")
    case True
    with ok show ?thesis
      by (auto simp: date_ok_def next_date_def js_date_def Let_def date_key_def days_in_month_def)
  next
    case False
    with ok have m: "month0 d + 1 < 12" by (simp add: date_ok_def)
    then have dm: "Suc (month0 d) div 12 = 0" "Suc (month0 d) mod 12 = Suc (month0 d)" by simp_all
    show ?thesis
      using ok b by (auto simp: date_ok_def next_date_def js_date_def Let_def date_key_def dm)
  qed
qed

lemma step_currentDate: "currentDate (period_step inp s) = next_date (currentDate s)"
  by (simp add: period_step_def Let_def)

lemma step_prevPeriodEnd: "prevPeriodEnd (period_step inp s) = Some (currentDate s)"
  by (simp add: period_step_def Let_def)

lemma period_end_0: "period_end inp 0 = startDate inp"
  by (simp add: period_end_def state_after_0 init_sim_def)

lemma period_end_Suc: "period_end inp (Suc k) = next_date (period_end inp k)"
  by (simp add: period_end_def state_after_Suc step_currentDate)

lemma period_end_ok: "date_ok (startDate inp) \<Longrightarrow> date_ok (period_end inp k)"
  by (induction k) (simp_all add: period_end_0 period_end_Suc next_date_ok)

lemma period_end_Suc_gt:
  "date_ok (startDate inp) \<Longrightarrow> date_key (period_end inp k) < date_key (period_end inp (Suc k))"
  by (simp add: period_end_Suc next_date_gt period_end_ok)

lemma period_end_mono:
  assumes "date_ok (startDate inp)" "j < k"
  shows "date_key (period_end inp j) < date_key (period_end inp k)"
  using assms(2)
proof (induction k)
  case 0 then show ?case by simp
next
  case (Suc k)
  have s: "date_key (period_end inp k) < date_key (period_end inp (Suc k))"
    by (rule period_end_Suc_gt[OF assms(1)])
  show ?case
  proof (cases "j = k")
    case True with s show ?thesis by simp
  next
    case False
    with Suc.prems have "j < k" by simp
    from Suc.IH[OF this] s show ?thesis by simp
  qed
qed

lemma prev_0: "prevPeriodEnd (state_after inp 0) = None"
  by (simp add: state_after_0 init_sim_def)

lemma prev_Suc: "prevPeriodEnd (state_after inp (Suc k)) = Some (period_end inp k)"
  by (simp add: state_after_Suc step_prevPeriodEnd period_end_def)

lemma included_0:
  "included inp 0 ev \<longleftrightarrow>
     date_key (startDate inp) \<le> date_key (ev_date ev)
     \<and> date_key (ev_date ev) \<le> date_key (period_end inp 0)"
  by (simp add: included_def prev_0 include_event_def period_end_def)

lemma included_Suc:
  "included inp (Suc k) ev \<longleftrightarrow>
     date_key (period_end inp k) < date_key (ev_date ev)
     \<and> date_key (ev_date ev) \<le> date_key (period_end inp (Suc k))"
  by (simp add: included_def prev_Suc include_event_def period_end_def)

lemma start_le_period_end:
  "date_ok (startDate inp) \<Longrightarrow> date_key (startDate inp) \<le> date_key (period_end inp k)"
  using period_end_mono[of inp 0 k] by (cases k) (simp_all add: period_end_0)

lemma included_iff:
  assumes ok: "date_ok (startDate inp)"
  shows "included inp k ev \<longleftrightarrow>
     date_key (startDate inp) \<le> date_key (ev_date ev)
     \<and> date_key (ev_date ev) \<le> date_key (period_end inp k)
     \<and> (\<forall>j<k. date_key (period_end inp j) < date_key (ev_date ev))"
proof (cases k)
  case 0
  then show ?thesis by (simp add: included_0)
next
  case (Suc m)
  have "date_key (period_end inp m) < date_key (ev_date ev)
        \<longleftrightarrow> date_key (startDate inp) \<le> date_key (ev_date ev)
            \<and> (\<forall>j<Suc m. date_key (period_end inp j) < date_key (ev_date ev))" (is "?L \<longleftrightarrow> ?R")
  proof
    assume L: ?L
    have "date_key (startDate inp) \<le> date_key (ev_date ev)"
      using start_le_period_end[OF ok, of m] L by simp
    moreover have "date_key (period_end inp j) < date_key (ev_date ev)" if "j < Suc m" for j
    proof (cases "j = m")
      case True with L show ?thesis by simp
    next
      case False
      with that have "j < m" by simp
      from period_end_mono[OF ok this] L show ?thesis by simp
    qed
    ultimately show ?R by blast
  next
    assume ?R then show ?L by simp
  qed
  then show ?thesis unfolding Suc included_Suc by blast
qed

lemma included_unique:
  assumes ok: "date_ok (startDate inp)" and "included inp j ev" "included inp k ev"
  shows "j = k"
proof (rule ccontr)
  assume ne: "j \<noteq> k"
  have aux: False if "a < b" "included inp a ev" "included inp b ev" for a b
  proof -
    from that(2) have "date_key (ev_date ev) \<le> date_key (period_end inp a)"
      by (simp add: included_iff[OF ok])
    moreover from that(3) that(1) have "date_key (period_end inp a) < date_key (ev_date ev)"
      by (simp add: included_iff[OF ok])
    ultimately show False by simp
  qed
  from ne have "j < k \<or> k < j" by auto
  with aux assms(2,3) show False by blast
qed

lemma included_exists:
  assumes ok: "date_ok (startDate inp)"
    and lo: "date_key (startDate inp) \<le> date_key (ev_date ev)"
    and hi: "date_key (ev_date ev) \<le> date_key (period_end inp m)"
  shows "\<exists>k\<le>m. included inp k ev"
proof -
  define k where "k = (LEAST k. date_key (ev_date ev) \<le> date_key (period_end inp k))"
  have 1: "date_key (ev_date ev) \<le> date_key (period_end inp k)"
    unfolding k_def using hi by (rule LeastI)
  have 2: "k \<le> m" unfolding k_def using hi by (rule Least_le)
  have 3: "date_key (period_end inp j) < date_key (ev_date ev)" if "j < k" for j
    using not_less_Least[of j "\<lambda>k. date_key (ev_date ev) \<le> date_key (period_end inp k)"] that
    unfolding k_def by auto
  from lo 1 3 have "included inp k ev" by (simp add: included_iff[OF ok])
  with 2 show ?thesis by blast
qed

lemma distinct_at_most_one:
  assumes "distinct xs" "\<And>x y. x \<in> set xs \<Longrightarrow> y \<in> set xs \<Longrightarrow> x = y"
  shows "length xs \<le> 1"
proof (cases xs)
  case Nil then show ?thesis by simp
next
  case (Cons x ys)
  show ?thesis
  proof (cases ys)
    case Nil with Cons show ?thesis by simp
  next
    case (Cons y zs)
    with \<open>xs = x # ys\<close> assms(2)[of x y] assms(1) show ?thesis by simp
  qed
qed

lemma filter_upt_at_most_one:
  assumes "\<And>j k. P j \<Longrightarrow> P k \<Longrightarrow> j = k"
  shows "length (filter P [0..<n]) \<le> 1"
  by (rule distinct_at_most_one) (use assms in auto)

lemma filter_upt_exactly_one:
  assumes "\<And>j k. P j \<Longrightarrow> P k \<Longrightarrow> j = k" "k < n" "P k"
  shows "length (filter P [0..<n]) = 1"
proof -
  have "k \<in> set (filter P [0..<n])" using assms(2,3) by simp
  then have "0 < length (filter P [0..<n])" by (rule length_pos_if_in_set)
  moreover have "length (filter P [0..<n]) \<le> 1"
    using assms(1) by (rule filter_upt_at_most_one)
  ultimately show ?thesis by linarith
qed

subsection \<open>Income and expenses of a period\<close>

lemma foldl_add_event:
  "foldl (add_event p st pe) acc evs =
     (fst acc + sum_list (map ev_amount (filter (\<lambda>e. include_event p st pe e \<and> ev_type e = Income) evs)),
      snd acc + sum_list (map ev_amount (filter (\<lambda>e. include_event p st pe e \<and> ev_type e \<noteq> Income) evs)))"
  by (induction evs arbitrary: acc) (simp_all add: add_event_def)

lemma body_income:
  "periodIncome (period_body inp (state_after inp k)) =
     baseNet inp + sum_list (map ev_amount (filter (\<lambda>e. included inp k e \<and> ev_type e = Income) (events inp)))"
  by (simp add: period_body_def Let_def cash_aggregation_def foldl_add_event included_def)

lemma body_expense:
  "periodExpense (period_body inp (state_after inp k)) =
     baseFixed inp + discretionary inp
       + sum_list (map ev_amount (filter (\<lambda>e. included inp k e \<and> ev_type e \<noteq> Income) (events inp)))"
  by (simp add: period_body_def Let_def cash_aggregation_def foldl_add_event included_def)

lemma results_step:
  "simulationResults (period_step inp s) =
     simulationResults s @ [last (simulationResults (period_step inp s))]"
  by (simp add: period_step_def Let_def)

lemma results_nth:
  "k < n \<Longrightarrow> simulationResults (state_after inp n) ! k
              = last (simulationResults (state_after inp (Suc k)))"
proof (induction n)
  case 0 then show ?case by simp
next
  case (Suc n)
  have r: "simulationResults (state_after inp (Suc n)) =
           simulationResults (state_after inp n) @ [last (simulationResults (state_after inp (Suc n)))]"
    unfolding state_after_Suc by (rule results_step)
  show ?case
  proof (cases "k = n")
    case True
    then show ?thesis
      by (subst r) (simp add: nth_append length_results_state_after)
  next
    case False
    with Suc.prems have kn: "k < n" by simp
    from Suc.IH[OF kn] show ?thesis
      by (subst r) (simp add: nth_append length_results_state_after kn)
  qed
qed

lemma run_rows_nth:
  assumes "k < iteration (runSimulation inp)"
  shows "simulationResults (runSimulation inp) ! k = last (simulationResults (state_after inp (Suc k)))"
  using results_nth[OF assms, of inp] run_iteration[of inp] by simp

text \<open>
  Claim C4, as amended.  For a start date that is a calendar date: a cash event is counted
  in at most one period of the run.  Period \<open>k\<close> counts it exactly when its date is on or
  after the start date, on or before the end of period \<open>k\<close>, and after the end of every
  earlier period (the first period whose window holds the date; the first period's window
  is the start date alone).  An event dated between the start date and the end of the last
  simulated period is counted in exactly one period.  The income reported for a period is
  the base net income plus the amounts of the income events counted in it, and the
  expenses are the fixed expenses plus the discretionary allowance plus the amounts of the
  expense events counted in it.
\<close>

theorem event_in_at_most_one_period:
  assumes ok: "date_ok (startDate inp)"
  shows "length (periods_including inp ev) \<le> 1
    \<and> (included inp k ev \<longleftrightarrow>
          date_key (startDate inp) \<le> date_key (ev_date ev)
          \<and> date_key (ev_date ev) \<le> date_key (period_end inp k)
          \<and> (\<forall>j<k. date_key (period_end inp j) < date_key (ev_date ev)))
    \<and> (0 < iteration (runSimulation inp)
        \<and> date_key (startDate inp) \<le> date_key (ev_date ev)
        \<and> date_key (ev_date ev) \<le> date_key (period_end inp (iteration (runSimulation inp) - 1))
        \<longrightarrow> length (periods_including inp ev) = 1)
    \<and> (k < iteration (runSimulation inp) \<longrightarrow>
          income (simulationResults (runSimulation inp) ! k)
            = baseNet inp + sum_list (map ev_amount
                (filter (\<lambda>e. included inp k e \<and> ev_type e = Income) (events inp)))
          \<and> expenses (simulationResults (runSimulation inp) ! k)
            = baseFixed inp + discretionary inp + sum_list (map ev_amount
                (filter (\<lambda>e. included inp k e \<and> ev_type e \<noteq> Income) (events inp))))"
proof -
  let ?n = "iteration (runSimulation inp)"
  have u: "\<And>j k. included inp j ev \<Longrightarrow> included inp k ev \<Longrightarrow> j = k"
    using included_unique[OF ok] by blast
  have 1: "length (periods_including inp ev) \<le> 1"
    unfolding periods_including_def using u by (rule filter_upt_at_most_one)
  have 3: "length (periods_including inp ev) = 1"
    if "0 < ?n" "date_key (startDate inp) \<le> date_key (ev_date ev)"
       "date_key (ev_date ev) \<le> date_key (period_end inp (?n - 1))"
  proof -
    from included_exists[OF ok that(2) that(3)] obtain k where
      k: "k \<le> ?n - 1" "included inp k ev" by blast
    with that(1) have "k < ?n" by simp
    with u k(2) show ?thesis
      unfolding periods_including_def by (intro filter_upt_exactly_one[of _ k]) blast+
  qed
  have 4: "income (simulationResults (runSimulation inp) ! k)
            = baseNet inp + sum_list (map ev_amount
                (filter (\<lambda>e. included inp k e \<and> ev_type e = Income) (events inp)))
          \<and> expenses (simulationResults (runSimulation inp) ! k)
            = baseFixed inp + discretionary inp + sum_list (map ev_amount
                (filter (\<lambda>e. included inp k e \<and> ev_type e \<noteq> Income) (events inp)))"
    if "k < ?n"
    unfolding run_rows_nth[OF that] state_after_Suc step_last_row
    by (simp add: body_income body_expense)
  from 1 included_iff[OF ok, of k ev] 3 4 show ?thesis by blast
qed

theorem event_in_at_most_one_period_witness:
  "date_ok (startDate ex_event)
   \<and> 0 < iteration (runSimulation ex_event)
   \<and> date_key (startDate ex_event) \<le> date_key (ev_date (hd (events ex_event)))
   \<and> date_key (ev_date (hd (events ex_event)))
        \<le> date_key (period_end ex_event (iteration (runSimulation ex_event) - 1))
   \<and> length (periods_including ex_event (hd (events ex_event))) = 1
   \<and> included ex_event 1 (hd (events ex_event))
   \<and> income (simulationResults (runSimulation ex_event) ! 1) = 110"
proof -
  have ok: "date_ok (startDate ex_event)" by code_simp
  have it: "iteration (runSimulation ex_event) = 2" by code_simp
  have lo: "date_key (startDate ex_event) \<le> date_key (ev_date (hd (events ex_event)))"
    by code_simp
  have hi: "date_key (ev_date (hd (events ex_event))) \<le> date_key (period_end ex_event 1)"
    by code_simp
  have inc: "included ex_event 1 (hd (events ex_event))" by code_simp
  have am: "baseNet ex_event + sum_list (map ev_amount
                (filter (\<lambda>e. included ex_event 1 e \<and> ev_type e = Income) (events ex_event))) = 110"
    by code_simp
  from event_in_at_most_one_period[OF ok, of "hd (events ex_event)" 1] it lo hi am inc
  show ?thesis using ok by simp
qed

text \<open>
  Claim C4 as stated fails: an income event dated the day before the start date is counted
  in no period of the run, and the only period's income is the base income of 200.
\<close>

theorem event_before_start_counterexample:
  "0 < iteration (runSimulation ex_early)
   \<and> periods_including ex_early (hd (events ex_early)) = []
   \<and> income (hd (simulationResults (runSimulation ex_early))) = 200"
  by code_simp

subsection \<open>Sorting\<close>

lemma set_insort_cmp [simp]: "set (insort_cmp c x xs) = insert x (set xs)"
  by (induction xs) auto

lemma set_js_sort [simp]: "set (js_sort c xs) = set xs"
  by (induction xs) (simp_all add: js_sort_def)

lemma length_insort_cmp [simp]: "length (insort_cmp c x xs) = Suc (length xs)"
  by (induction xs) auto

lemma length_js_sort [simp]: "length (js_sort c xs) = length xs"
  by (induction xs) (simp_all add: js_sort_def)

subsection \<open>Due dates\<close>

lemma last_day_of_month:
  "m < 12 \<Longrightarrow> day (js_date y (m + 1) 0) = days_in_month y m"
  by (cases "m = 11") (auto simp: js_date_def Let_def days_in_month_def)

lemma js_date_plain: "m < 12 \<Longrightarrow> d \<noteq> 0 \<Longrightarrow> js_date y m d = \<lparr>year = y, month0 = m, day = d\<rparr>"
  by (simp add: js_date_def)

lemma makeDueDate_eq:
  assumes "m < 12" "1 \<le> dd"
  shows "makeDueDate y m dd = \<lparr>year = y, month0 = m, day = min dd (days_in_month y m)\<rparr>"
proof -
  have "1 \<le> min dd (days_in_month y m)" using assms(2) days_in_month_bounds[of y m] by simp
  then have nz: "min dd (days_in_month y m) \<noteq> 0" by simp
  have "makeDueDate y m dd = js_date y m (min dd (day (js_date y (m + 1) 0)))"
    by (simp only: makeDueDate_def Let_def)
  also have "\<dots> = js_date y m (min dd (days_in_month y m))"
    by (simp only: last_day_of_month[OF assms(1)])
  also have "\<dots> = \<lparr>year = y, month0 = m, day = min dd (days_in_month y m)\<rparr>"
    by (rule js_date_plain[OF assms(1) nz])
  finally show ?thesis .
qed

lemma dueDay_bounds: "1 \<le> getDueDayOrDefault d \<and> getDueDayOrDefault d \<le> 31"
  by (auto simp: getDueDayOrDefault_def split: option.splits)

lemma makeDueDate_ok:
  "100 \<le> y \<Longrightarrow> m < 12 \<Longrightarrow> date_ok (makeDueDate y m (getDueDayOrDefault d))"
  using dueDay_bounds[of d] days_in_month_bounds[of y m]
  by (simp add: makeDueDate_eq date_ok_def)

lemma getFirstDueDate_ok:
  assumes "date_ok s"
  shows "date_ok (getFirstDueDate s d)"
proof -
  from assms have y: "100 \<le> year s" "100 \<le> year s + 1" and m: "month0 s < 12"
    by (simp_all add: date_ok_def)
  have 1: "date_ok (makeDueDate (year s) (month0 s) (getDueDayOrDefault d))"
    by (rule makeDueDate_ok[OF y(1) m])
  have 2: "date_ok (makeDueDate (year s + 1) 0 (getDueDayOrDefault d))"
    by (rule makeDueDate_ok[OF y(2)]) simp
  have 3: "date_ok (makeDueDate (year s) (month0 s + 1) (getDueDayOrDefault d))"
    if "\<not> month0 s + 1 > 11"
    by (rule makeDueDate_ok[OF y(1)]) (use that in simp)
  show ?thesis
    unfolding getFirstDueDate_def Let_def using 1 2 3 by (simp del: One_nat_def)
qed

lemma next_due_date_eq:
  assumes "month0 (dueDate lastOb) < 12"
  shows "next_due_date d lastOb =
     (if month0 (dueDate lastOb) = 11
      then \<lparr>year = year (dueDate lastOb) + 1, month0 = 0,
            day = min (getDueDayOrDefault d) (days_in_month (year (dueDate lastOb) + 1) 0)\<rparr>
      else \<lparr>year = year (dueDate lastOb), month0 = month0 (dueDate lastOb) + 1,
            day = min (getDueDayOrDefault d)
                    (days_in_month (year (dueDate lastOb)) (month0 (dueDate lastOb) + 1))\<rparr>)"
  using assms dueDay_bounds[of d]
  by (auto simp: next_due_date_def Let_def makeDueDate_eq)

lemma next_due_date_ok:
  assumes "date_ok (dueDate lastOb)"
  shows "date_ok (next_due_date d lastOb)"
proof -
  from assms have m: "month0 (dueDate lastOb) < 12" and y: "100 \<le> year (dueDate lastOb)"
    by (simp_all add: date_ok_def)
  show ?thesis
    using m y dueDay_bounds[of d]
      days_in_month_bounds[of "year (dueDate lastOb) + 1" 0]
      days_in_month_bounds[of "year (dueDate lastOb)" "month0 (dueDate lastOb) + 1"]
    by (auto simp: next_due_date_eq[OF m] date_ok_def)
qed

lemma next_due_date_gt:
  assumes "date_ok (dueDate lastOb)"
  shows "date_key (dueDate lastOb) < date_key (next_due_date d lastOb)"
proof -
  from assms have m: "month0 (dueDate lastOb) < 12" and dl: "day (dueDate lastOb) \<le> 31"
    using days_in_month_bounds[of "year (dueDate lastOb)" "month0 (dueDate lastOb)"]
    by (simp_all add: date_ok_def)
  show ?thesis
    using m dl by (auto simp: next_due_date_eq[OF m] date_key_def)
qed

subsection \<open>The binding minimum\<close>

lemma baseMin_nonneg: "0 \<le> baseMin (computeBanxicoMonthlyComponents b r l)"
proof (cases "b \<le> 0 \<or> r \<le> 0")
  case True
  then show ?thesis by (auto simp: computeBanxicoMonthlyComponents_def)
next
  case False
  then have b: "0 < b" and r: "0 < r" by simp_all
  then have mi: "0 < b * (r / 100) / 12" by simp
  have ob: "0 \<le> (case l of Some c \<Rightarrow> if c > 0 then 0.0125 * c else 0 | None \<Rightarrow> 0)"
    by (simp split: option.splits)
  show ?thesis
    using False b mi ob
    by (simp add: computeBanxicoMonthlyComponents_def Let_def max_def add_nonneg_nonneg)
qed

lemma binding_min_nonneg: "0 \<le> binding_min d"
  using baseMin_nonneg[of "balance d" "rate d" "creditLimit d"]
  by (simp add: binding_min_def Let_def max_def)

lemma new_obligation_ok: "ob_ok (new_obligation due d)"
  by (simp add: ob_ok_def new_obligation_def binding_min_nonneg)

subsection \<open>The queue invariants\<close>

lemma queue_wf_single:
  "date_ok due \<Longrightarrow> queue_wf [new_obligation due d]"
  by (simp add: queue_wf_def queue_ok_def new_obligation_ok) (simp add: new_obligation_def)

lemma set_alist_update:
  "kv \<in> set (AList.update k v al) \<Longrightarrow> kv \<in> set al \<or> kv = (k, v)"
  by (induction al) (auto split: if_splits)

lemma queues_wf_update:
  "queues_wf mo \<Longrightarrow> queue_wf obs \<Longrightarrow> queues_wf (AList.update k obs mo)"
  unfolding queues_wf_def list_all_iff using set_alist_update[of _ k obs mo] by fastforce

lemma seed_obligations_wf:
  "date_ok s \<Longrightarrow> queues_wf mo \<Longrightarrow> queues_wf (seed_obligations s ds mo)"
  by (induction ds arbitrary: mo)
     (simp_all add: queues_wf_update queue_wf_single getFirstDueDate_ok)

lemma queue_wf_append:
  assumes "queue_wf obs" "obs \<noteq> []"
  shows "queue_wf (obs @ [new_obligation (next_due_date d (last obs)) d])"
proof -
  let ?k = "\<lambda>ob. date_key (dueDate ob)"
  let ?n = "new_obligation (next_due_date d (last obs)) d"
  from assms have srt: "sorted (map ?k obs)" and oks: "list_all ob_ok obs"
    and dts: "list_all (\<lambda>ob. date_ok (dueDate ob)) obs"
    by (simp_all add: queue_wf_def queue_ok_def)
  from assms(2) have lin: "last obs \<in> set obs" by simp
  with dts have lok: "date_ok (dueDate (last obs))" by (simp add: list_all_iff)
  have dn: "dueDate ?n = next_due_date d (last obs)" by (simp add: new_obligation_def)
  have gt: "?k (last obs) < ?k ?n" unfolding dn by (rule next_due_date_gt[OF lok])
  have le: "?k ob \<le> ?k (last obs)" if "ob \<in> set obs" for ob
  proof -
    from that obtain i where i: "i < length obs" "obs ! i = ob" by (auto simp: in_set_conv_nth)
    have "map ?k obs ! i \<le> map ?k obs ! (length obs - 1)"
      using srt i(1) by (intro sorted_nth_mono) simp_all
    then show ?thesis using i assms(2) by (simp add: last_conv_nth)
  qed
  have "sorted (map ?k (obs @ [?n]))"
    using srt le gt by (fastforce simp: sorted_append)
  moreover have "list_all ob_ok (obs @ [?n])" using oks by (simp add: new_obligation_ok)
  moreover have "list_all (\<lambda>ob. date_ok (dueDate ob)) (obs @ [?n])"
    using dts next_due_date_ok[OF lok, of d] by (simp add: dn)
  ultimately show ?thesis by (simp add: queue_wf_def queue_ok_def)
qed

lemma roll_obs_wf:
  "queue_wf obs \<Longrightarrow> obs \<noteq> [] \<Longrightarrow> lastOb = last obs \<Longrightarrow> queue_wf (roll_obs pe d lastOb obs)"
proof (induction pe d lastOb obs rule: roll_obs.induct)
  case (1 pe d lastOb obs)
  show ?case
  proof (cases "date_key pe > date_key (dueDate lastOb) \<and> length obs < 240 \<and> balance d > 0.5")
    case False
    have "roll_obs pe d lastOb obs = obs"
      by (subst roll_obs.simps) (simp only: False if_False)
    then show ?thesis using 1(2) by simp
  next
    case True
    let ?n = "new_obligation (next_due_date d lastOb) d"
    have e: "roll_obs pe d lastOb obs = roll_obs pe d ?n (obs @ [?n])"
      by (subst roll_obs.simps) (simp only: True if_True Let_def simp_thms)
    have w: "queue_wf (obs @ [?n])" using queue_wf_append[OF 1(2) 1(3), of d] 1(4) by simp
    have "queue_wf (roll_obs pe d ?n (obs @ [?n]))"
      by (rule 1(1)[OF True refl w]) simp_all
    then show ?thesis by (simp only: e)
  qed
qed

lemma queue_wf_Nil: "queue_wf []"
  by (simp add: queue_wf_def queue_ok_def)

lemma roll_entry_wf: "queue_wf obs \<Longrightarrow> queue_wf (roll_entry pe ds k obs)"
  by (simp add: roll_entry_def roll_obs_wf queue_wf_Nil split: option.splits)

lemma rollover_wf: "queues_wf mo \<Longrightarrow> queues_wf (rollover pe ds mo)"
  by (auto simp: queues_wf_def rollover_def list_all_iff roll_entry_wf)

lemma pay_ob_queue_ok:
  assumes "queue_ok obs" "i < length obs"
  shows "queue_ok (fst (snd (snd (pay_ob i (cash, bal, obs, paid)))))"
proof -
  let ?o = "obs ! i"
  let ?pay = "min cash (min (amountRemaining ?o) bal)"
  from assms have ok: "ob_ok ?o" by (simp add: queue_ok_def list_all_length)
  have keys: "map (\<lambda>ob. date_key (dueDate ob)) (obs[i := ?o\<lparr>amountRemaining := a\<rparr>])
              = map (\<lambda>ob. date_key (dueDate ob)) obs" for a
    using assms(2) by (simp add: map_update list_update_same_conv)
  have upd: "queue_ok (obs[i := ?o\<lparr>amountRemaining := amountRemaining ?o - ?pay\<rparr>])"
    if "0 < ?pay"
  proof -
    have "ob_ok (?o\<lparr>amountRemaining := amountRemaining ?o - ?pay\<rparr>)"
      using ok that by (simp add: ob_ok_def min_def split: if_splits)
    then have "list_all ob_ok (obs[i := ?o\<lparr>amountRemaining := amountRemaining ?o - ?pay\<rparr>])"
      using assms(1) by (auto simp: queue_ok_def list_all_iff dest!: set_update_subset_insert[THEN subsetD])
    then show ?thesis using assms(1) by (simp add: queue_ok_def keys)
  qed
  show ?thesis using assms(1) upd by (simp add: pay_ob_def Let_def not_le)
qed

lemma pay_ob_queue_wf:
  assumes "queue_wf obs" "i < length obs"
  shows "queue_wf (fst (snd (snd (pay_ob i (cash, bal, obs, paid)))))"
proof -
  have d: "map dueDate (fst (snd (snd (pay_ob i (cash, bal, obs, paid))))) = map dueDate obs"
    using assms(2) by (simp add: pay_ob_def Let_def map_update list_update_same_conv)
  have conv: "list_all (\<lambda>ob. date_ok (dueDate ob)) xs \<longleftrightarrow> (\<forall>x\<in>set (map dueDate xs). date_ok x)" for xs
    by (simp add: list_all_iff)
  have "list_all (\<lambda>ob. date_ok (dueDate ob)) (fst (snd (snd (pay_ob i (cash, bal, obs, paid)))))"
    unfolding conv d using assms(1) by (simp add: queue_wf_def list_all_iff)
  moreover have "queue_ok (fst (snd (snd (pay_ob i (cash, bal, obs, paid)))))"
    using assms by (intro pay_ob_queue_ok) (simp_all add: queue_wf_def)
  ultimately show ?thesis by (simp add: queue_wf_def)
qed

lemma pay_ob_length: "length (fst (snd (snd (pay_ob i (cash, bal, obs, paid))))) = length obs"
  by (simp add: pay_ob_def Let_def)

lemma pay_obs_queue_wf:
  "queue_wf (fst (snd (snd st))) \<Longrightarrow> \<forall>i\<in>set js. i < length (fst (snd (snd st)))
   \<Longrightarrow> queue_wf (fst (snd (snd (pay_obs js st))))"
proof (induction js arbitrary: st)
  case Nil then show ?case by simp
next
  case (Cons i js)
  obtain cash bal obs paid where st: "st = (cash, bal, obs, paid)" by (cases st)
  have w: "queue_wf (fst (snd (snd (pay_ob i st))))"
    using Cons.prems pay_ob_queue_wf[of obs i cash bal paid] by (simp add: st)
  have l: "\<forall>j\<in>set js. j < length (fst (snd (snd (pay_ob i st))))"
    using Cons.prems(2) by (simp add: st pay_ob_length)
  from Cons.IH[OF w l] Cons.prems(1) show ?case by simp
qed

lemma set_sortedObs: "set (sortedObs obs) = {0..<length obs}"
  by (simp add: sortedObs_def)

lemma obs_of_wf: "queues_wf mo \<Longrightarrow> queue_wf (obs_of mo k)"
proof -
  assume w: "queues_wf mo"
  show ?thesis
  proof (cases "map_of mo k")
    case None
    then show ?thesis by (simp add: obs_of_def queue_wf_def queue_ok_def)
  next
    case (Some obs)
    then have "(k, obs) \<in> set mo" by (rule map_of_SomeD)
    with w Some show ?thesis by (auto simp: obs_of_def queues_wf_def list_all_iff)
  qed
qed

lemma settle_debt_wf: "queues_wf (ss_obs st) \<Longrightarrow> queues_wf (ss_obs (settle_debt st e))"
proof -
  assume w: "queues_wf (ss_obs st)"
  let ?d = "ss_debts st ! me_debt e"
  let ?obs = "obs_of (ss_obs st) (debt_id ?d)"
  let ?r = "pay_obs (sortedObs ?obs) (ss_cash st, balance ?d, ?obs, ss_paid st)"
  have "queue_wf (fst (snd (snd ?r)))"
    by (rule pay_obs_queue_wf) (simp_all add: obs_of_wf[OF w] set_sortedObs)
  then have "queues_wf (AList.update (debt_id ?d) (fst (snd (snd ?r))) (ss_obs st))"
    by (rule queues_wf_update[OF w])
  then show ?thesis by (simp add: settle_debt_def Let_def case_prod_beta)
qed

lemma foldl_settle_wf: "queues_wf (ss_obs st) \<Longrightarrow> queues_wf (ss_obs (foldl settle_debt st es))"
  by (induction es arbitrary: st) (simp_all add: settle_debt_wf)

lemma settle_minimums_wf: "queues_wf mo \<Longrightarrow> queues_wf (ss_obs (settle_minimums cash ds mo))"
  by (simp add: settle_minimums_def foldl_settle_wf)

lemma step_minObligations: "minObligations (period_step inp s) = ss_obs (settled (period_body inp s))"
  by (simp add: period_step_def Let_def)

lemma body_queues_wf:
  assumes "queues_wf (minObligations s)"
  shows "queues_wf (obs_rolled (period_body inp s))"
    and "queues_wf (ss_obs (settled (period_body inp s)))"
proof -
  show r: "queues_wf (obs_rolled (period_body inp s))"
    unfolding body_obs_rolled by (rule rollover_wf[OF assms])
  show "queues_wf (ss_obs (settled (period_body inp s)))"
    unfolding body_settled by (rule settle_minimums_wf[OF r])
qed

lemma state_after_wf:
  assumes "date_ok (startDate inp)"
  shows "queues_wf (minObligations (state_after inp k))"
proof (induction k)
  case 0
  have "queues_wf []" by (simp add: queues_wf_def)
  from seed_obligations_wf[OF assms this] show ?case
    by (simp add: state_after_0 init_sim_def)
next
  case (Suc k)
  then show ?case by (simp add: state_after_Suc step_minObligations body_queues_wf)
qed

lemma queues_wf_ok: "queues_wf mo \<Longrightarrow> queues_ok mo"
  by (simp add: queues_wf_def queues_ok_def queue_wf_def list_all_iff)

text \<open>
  Claim C8.  For a start date that is a calendar date, every obligation of every queue
  satisfies \<open>0 \<le> amountRemaining \<le> monthlyMin\<close> and every queue is sorted by due date
  ascending: after seeding, after any number of periods, inside every period after the
  rollover and after the minimum-payment settlement, and at the end of the run.  One
  rollover append and one payment application each keep the invariants of the queue they
  change.
\<close>

theorem obligation_queue_invariants:
  assumes "date_ok (startDate inp)"
  shows "queues_ok (minObligations (init_sim inp))
    \<and> queues_ok (minObligations (state_after inp k))
    \<and> queues_ok (obs_rolled (period_body inp (state_after inp k)))
    \<and> queues_ok (ss_obs (settled (period_body inp (state_after inp k))))
    \<and> queues_ok (minObligations (runSimulation inp))
    \<and> (queue_wf obs \<and> obs \<noteq> []
         \<longrightarrow> queue_wf (obs @ [new_obligation (next_due_date d (last obs)) d]))
    \<and> (queue_ok obs \<and> i < length obs
         \<longrightarrow> queue_ok (fst (snd (snd (pay_ob i (cash, bal, obs, paid))))))"
proof -
  have w: "queues_wf (minObligations (state_after inp j))" for j
    by (rule state_after_wf[OF assms])
  have 1: "queues_ok (minObligations (init_sim inp))"
    using w[of 0] by (simp add: state_after_0 queues_wf_ok)
  have 5: "queues_ok (minObligations (runSimulation inp))"
    using w[of "iteration (runSimulation inp)"] run_iteration[of inp] by (simp add: queues_wf_ok)
  from 1 5 w[of k] body_queues_wf[OF w[of k], of inp] queue_wf_append[of obs d]
       pay_ob_queue_ok[of obs i cash bal paid]
  show ?thesis by (simp add: queues_wf_ok)
qed

theorem obligation_queue_invariants_witness:
  "date_ok (startDate ex_arrears)
   \<and> map amountRemaining (obs_of (minObligations (state_after ex_arrears 2)) 1) = [3 / 10, 3 / 10]
   \<and> queues_ok (minObligations (state_after ex_arrears 2))
   \<and> queue_wf (obs_of (minObligations (state_after ex_arrears 2)) 1)
   \<and> queue_wf (obs_of (minObligations (state_after ex_arrears 2)) 1
        @ [new_obligation (next_due_date arrears_debt
             (last (obs_of (minObligations (state_after ex_arrears 2)) 1))) arrears_debt])
   \<and> queue_ok (fst (snd (snd (pay_ob 0
        (50, 800, obs_of (minObligations (state_after ex_arrears 1)) 1, 0)))))"
proof -
  let ?q = "obs_of (minObligations (state_after ex_arrears 2)) 1"
  let ?p = "obs_of (minObligations (state_after ex_arrears 1)) 1"
  have ok: "date_ok (startDate ex_arrears)" by code_simp
  have am: "map amountRemaining ?q = [3 / 10, 3 / 10]" by code_simp
  have h1: "queue_wf ?q \<and> ?q \<noteq> []" by code_simp
  have h2: "queue_ok ?p \<and> 0 < length ?p" by code_simp
  from obligation_queue_invariants[OF ok, where k = 2 and obs = ?q and d = arrears_debt]
  have a: "queues_ok (minObligations (state_after ex_arrears 2))"
    and b: "queue_wf (?q @ [new_obligation (next_due_date arrears_debt (last ?q)) arrears_debt])"
    using h1 by blast+
  from obligation_queue_invariants[OF ok, where obs = ?p and i = 0 and cash = 50 and bal = 800
       and paid = 0] h2
  have c: "queue_ok (fst (snd (snd (pay_ob 0 (50, 800, ?p, 0)))))" by blast
  from ok am a h1 b c show ?thesis by blast
qed

subsection \<open>Obligation rollover\<close>

lemma if_gt_min: "(if x > y then y else x) = min x (y::real)"
  by (simp add: min_def)

lemma baseMin_floor:
  "baseMin (computeBanxicoMonthlyComponents (balance d) (rate d) (creditLimit d))
     = regulatory_floor d"
proof (cases "balance d \<le> 0 \<or> rate d \<le> 0")
  case True
  then show ?thesis
    by (auto simp: computeBanxicoMonthlyComponents_def regulatory_floor_def)
next
  case False
  then have b: "0 < balance d" and r: "0 < rate d" by simp_all
  let ?mi = "balance d * (rate d / 100) / 12"
  let ?a = "0.015 * balance d + ?mi + ?mi * 0.16"
  have mi: "0 < ?mi" using b r by simp
  have a: "0 < ?a" using b mi by (intro add_pos_pos mult_pos_pos) simp_all
  have lim: "max ?a (case creditLimit d of Some c \<Rightarrow> if c > 0 then 0.0125 * c else 0 | None \<Rightarrow> 0)
             = max ?a (case creditLimit d of None \<Rightarrow> 0 | Some c \<Rightarrow> 0.0125 * c)"
  proof (cases "creditLimit d")
    case None then show ?thesis by (simp only: option.case)
  next
    case (Some c)
    show ?thesis
    proof (cases "c > 0")
      case True with Some show ?thesis by (simp only: option.case if_True)
    next
      case neg: False
      then have "0.0125 * c \<le> 0" by (simp add: mult_le_0_iff)
      with a have "max ?a (0.0125 * c) = ?a" "max ?a 0 = ?a" by (simp_all only: max_def) auto
      with Some neg show ?thesis by (simp only: option.case if_False)
    qed
  qed
  have "baseMin (computeBanxicoMonthlyComponents (balance d) (rate d) (creditLimit d))
        = min (max ?a (case creditLimit d of Some c \<Rightarrow> if c > 0 then 0.0125 * c else 0 | None \<Rightarrow> 0))
              (balance d + ?mi + ?mi * 0.16)"
    by (simp only: computeBanxicoMonthlyComponents_def False if_False Let_def
          banxico.simps if_gt_min)
  also have "\<dots> = regulatory_floor d"
    unfolding lim by (simp only: regulatory_floor_def False if_False)
  finally show ?thesis .
qed

lemma binding_min_spec: "binding_min d = spec_min d"
  by (simp add: binding_min_def spec_min_def baseMin_floor Let_def)

lemma next_due_date_month_after:
  "date_ok (dueDate lastOb) \<Longrightarrow>
   next_due_date d lastOb = due_day_in_next_month (dueDate lastOb) (getDueDayOrDefault d)"
  by (simp add: next_due_date_eq date_ok_def due_day_in_next_month_def)

lemma new_obligation_appended:
  assumes "date_ok (dueDate prev)" "roll_cond pe d prev len"
  shows "appended_by_rollover pe d prev len (new_obligation (next_due_date d prev) d)"
  using assms
  by (simp add: appended_by_rollover_def new_obligation_def binding_min_spec
        next_due_date_month_after)

lemma roll_obs_prefix:
  "take (length obs) (roll_obs pe d lastOb obs) = obs"
proof (induction pe d lastOb obs rule: roll_obs.induct)
  case (1 pe d lastOb obs)
  show ?case
  proof (cases "date_key pe > date_key (dueDate lastOb) \<and> length obs < 240 \<and> balance d > 0.5")
    case False
    have "roll_obs pe d lastOb obs = obs"
      by (subst roll_obs.simps) (simp only: False if_False)
    then show ?thesis by simp
  next
    case True
    let ?n = "new_obligation (next_due_date d lastOb) d"
    have e: "roll_obs pe d lastOb obs = roll_obs pe d ?n (obs @ [?n])"
      by (subst roll_obs.simps) (simp only: True if_True Let_def simp_thms)
    from 1[OF True refl] have "take (length (obs @ [?n])) (roll_obs pe d ?n (obs @ [?n])) = obs @ [?n]" .
    then have "take (length obs) (take (length (obs @ [?n])) (roll_obs pe d ?n (obs @ [?n])))
               = take (length obs) (obs @ [?n])" by simp
    then show ?thesis unfolding e by (simp add: min_def)
  qed
qed

lemma roll_obs_length: "length obs \<le> length (roll_obs pe d lastOb obs)"
  using roll_obs_prefix[of obs pe d lastOb]
  by (metis length_take min.cobounded1)

lemma roll_obs_rolled:
  "queue_wf obs \<Longrightarrow> obs \<noteq> [] \<Longrightarrow> lastOb = last obs
   \<Longrightarrow> rolled_queue pe d obs (roll_obs pe d lastOb obs)"
proof (induction pe d lastOb obs rule: roll_obs.induct)
  case (1 pe d lastOb obs)
  show ?case
  proof (cases "date_key pe > date_key (dueDate lastOb) \<and> length obs < 240 \<and> balance d > 0.5")
    case False
    have "roll_obs pe d lastOb obs = obs"
      by (subst roll_obs.simps) (simp only: False if_False)
    then show ?thesis using False 1(4) by (auto simp: rolled_queue_def roll_cond_def)
  next
    case True
    let ?n = "new_obligation (next_due_date d lastOb) d"
    let ?res = "roll_obs pe d ?n (obs @ [?n])"
    have e: "roll_obs pe d lastOb obs = ?res"
      by (subst roll_obs.simps) (simp only: True if_True Let_def simp_thms)
    have w: "queue_wf (obs @ [?n])" using queue_wf_append[OF 1(2) 1(3), of d] 1(4) by simp
    have ih: "rolled_queue pe d (obs @ [?n]) ?res"
      by (rule 1(1)[OF True refl w]) simp_all
    have lok: "date_ok (dueDate lastOb)"
      using 1(2,3,4) by (simp add: queue_wf_def list_all_iff)
    have pre: "take (Suc (length obs)) ?res = obs @ [?n]"
      using ih by (simp add: rolled_queue_def)
    have len: "Suc (length obs) \<le> length ?res"
      using roll_obs_length[of "obs @ [?n]" pe d ?n] by simp
    have at: "?res ! length obs = ?n"
    proof -
      have "?res ! length obs = take (Suc (length obs)) ?res ! length obs" by simp
      also have "\<dots> = ?n" unfolding pre by simp
      finally show ?thesis .
    qed
    have before: "?res ! (length obs - 1) = lastOb"
    proof -
      have "?res ! (length obs - 1) = take (Suc (length obs)) ?res ! (length obs - 1)" by simp
      also have "\<dots> = obs ! (length obs - 1)" unfolding pre using 1(3) by (simp add: nth_append)
      finally show ?thesis using 1(3,4) by (simp add: last_conv_nth)
    qed
    have first: "appended_by_rollover pe d (?res ! (length obs - 1)) (length obs) (?res ! length obs)"
      unfolding at before
      by (rule new_obligation_appended[OF lok]) (use True in \<open>simp add: roll_cond_def\<close>)
    have rest: "list_all (\<lambda>i. appended_by_rollover pe d (?res ! (i - 1)) i (?res ! i))
                  [Suc (length obs)..<length ?res]"
      using ih by (simp add: rolled_queue_def)
    have up: "[length obs..<length ?res] = length obs # [Suc (length obs)..<length ?res]"
      using len by (simp add: upt_conv_Cons)
    have "take (length obs) ?res = obs"
      using roll_obs_prefix[of obs pe d lastOb] unfolding e .
    moreover have "list_all (\<lambda>i. appended_by_rollover pe d (?res ! (i - 1)) i (?res ! i))
                  [length obs..<length ?res]"
      unfolding up using first rest by simp
    moreover have "\<not> roll_cond pe d (last ?res) (length ?res)"
      using ih by (simp add: rolled_queue_def)
    ultimately show ?thesis unfolding e rolled_queue_def by blast
  qed
qed

lemma roll_entry_cases:
  assumes "queue_wf obs"
  shows "(obs \<noteq> [] \<longrightarrow> (\<forall>d. find (\<lambda>d. debt_id d = k) ds = Some d
              \<longrightarrow> rolled_queue pe d obs (roll_entry pe ds k obs)))
       \<and> (obs = [] \<or> find (\<lambda>d. debt_id d = k) ds = None \<longrightarrow> roll_entry pe ds k obs = obs)"
proof -
  have a: "rolled_queue pe d obs (roll_entry pe ds k obs)"
    if "obs \<noteq> []" "find (\<lambda>d. debt_id d = k) ds = Some d" for d
  proof (cases "balance d \<le> 0.5")
    case True
    then have "roll_entry pe ds k obs = obs" using that by (simp add: roll_entry_def)
    then show ?thesis using True by (simp add: rolled_queue_def roll_cond_def)
  next
    case False
    then have "roll_entry pe ds k obs = roll_obs pe d (last obs) obs"
      using that by (simp add: roll_entry_def)
    then show ?thesis using roll_obs_rolled[OF assms that(1) refl, of pe d] by simp
  qed
  have b: "roll_entry pe ds k obs = obs" if "obs = [] \<or> find (\<lambda>d. debt_id d = k) ds = None"
    using that by (auto simp: roll_entry_def split: option.splits)
  from a b show ?thesis by blast
qed

lemma rollover_nth:
  "n < length mo \<Longrightarrow>
   rollover pe ds mo ! n = (fst (mo ! n), roll_entry pe ds (fst (mo ! n)) (snd (mo ! n)))"
  by (simp add: rollover_def case_prod_beta)

lemma length_rollover: "length (rollover pe ds mo) = length mo"
  by (simp add: rollover_def)

text \<open>
  Claim C2, as amended.  In every period of a run that starts on a calendar date, the
  rollover (which runs on the balances after interest accrual) keeps the keys of the queues
  and treats every non-empty queue whose debt is found as follows: the old queue is a
  prefix of the new one; every obligation behind that prefix was appended while the
  period's end date was strictly after the due date of the obligation before it, the debt's
  balance was above 0.5 and the queue had fewer than 240 entries; its due date falls in the
  calendar month after the month of the due date before it, on the debt's due day clamped
  to the length of that month; its monthlyMin and amountRemaining are both the larger of
  the user minimum and the regulatory floor when the user minimum is positive and the floor
  alone otherwise, the floor being computed from the current balance; and at the end the
  loop condition is false.  An empty queue, or one whose debt is not found, is left as it
  is.
\<close>

theorem rollover_appends_monthly:
  assumes "date_ok (startDate inp)" "n < length (minObligations (state_after inp j))"
  shows "length (obs_rolled (period_body inp (state_after inp j)))
           = length (minObligations (state_after inp j))
    \<and> fst (obs_rolled (period_body inp (state_after inp j)) ! n)
         = fst (minObligations (state_after inp j) ! n)
    \<and> (snd (minObligations (state_after inp j) ! n) \<noteq> [] \<longrightarrow>
         (\<forall>d. find (\<lambda>d. debt_id d = fst (minObligations (state_after inp j) ! n))
                 (debts_accrued (period_body inp (state_after inp j))) = Some d
            \<longrightarrow> rolled_queue (currentDate (state_after inp j)) d
                  (snd (minObligations (state_after inp j) ! n))
                  (snd (obs_rolled (period_body inp (state_after inp j)) ! n))))
    \<and> (snd (minObligations (state_after inp j) ! n) = []
         \<or> find (\<lambda>d. debt_id d = fst (minObligations (state_after inp j) ! n))
                 (debts_accrued (period_body inp (state_after inp j))) = None
        \<longrightarrow> snd (obs_rolled (period_body inp (state_after inp j)) ! n)
             = snd (minObligations (state_after inp j) ! n))"
proof -
  let ?s = "state_after inp j"
  let ?mo = "minObligations ?s"
  have "queues_wf ?mo" by (rule state_after_wf[OF assms(1)])
  with assms(2) have w: "queue_wf (snd (?mo ! n))"
    by (simp add: queues_wf_def list_all_length)
  show ?thesis
    unfolding body_obs_rolled length_rollover rollover_nth[OF assms(2)]
    using roll_entry_cases[OF w] by simp
qed

lemma clamp_queues_value:
  "clamp_queues =
     [(7, [\<lparr>dueDate = \<lparr>year = 2025, month0 = 1, day = 28\<rparr>, amountRemaining = 191 / 5,
            ob_monthlyMin = 191 / 5, banxicoBaseMin = 191 / 5\<rparr>])]"
  by code_simp

lemma clamp_debts_value: "clamp_debts = [clamp_debt\<lparr>balance := 102333456 / 100000\<rparr>]"
  by code_simp

lemma clamp_rolled_value:
  "clamp_rolled =
     [\<lparr>dueDate = \<lparr>year = 2025, month0 = 1, day = 28\<rparr>, amountRemaining = 191 / 5,
       ob_monthlyMin = 191 / 5, banxicoBaseMin = 191 / 5\<rparr>,
      \<lparr>dueDate = \<lparr>year = 2025, month0 = 2, day = 31\<rparr>,
       amountRemaining = 39091380192 / 1000000000,
       ob_monthlyMin = 39091380192 / 1000000000,
       banxicoBaseMin = 39091380192 / 1000000000\<rparr>]"
  by code_simp

theorem rollover_appends_monthly_witness:
  "date_ok (startDate ex_clamp)
   \<and> 0 < length clamp_queues
   \<and> snd (clamp_queues ! 0) \<noteq> []
   \<and> find (\<lambda>d. debt_id d = fst (clamp_queues ! 0)) clamp_debts = Some (hd clamp_debts)
   \<and> rolled_queue (currentDate (state_after ex_clamp 1)) (hd clamp_debts)
        (snd (clamp_queues ! 0)) clamp_rolled
   \<and> map dueDate clamp_rolled
       = [\<lparr>year = 2025, month0 = 1, day = 28\<rparr>, \<lparr>year = 2025, month0 = 2, day = 31\<rparr>]
   \<and> map amountRemaining clamp_rolled = [191 / 5, 39091380192 / 1000000000]
   \<and> monthlyMin (hd clamp_debts) = 10"
proof -
  have ok: "date_ok (startDate ex_clamp)" by code_simp
  have n: "0 < length clamp_queues" unfolding clamp_queues_value by simp
  have ne: "snd (clamp_queues ! 0) \<noteq> []" unfolding clamp_queues_value by simp
  have f: "find (\<lambda>d. debt_id d = fst (clamp_queues ! 0)) clamp_debts = Some (hd clamp_debts)"
    unfolding clamp_queues_value clamp_debts_value by (simp add: clamp_debt_def)
  have m: "monthlyMin (hd clamp_debts) = 10"
    unfolding clamp_debts_value by (simp add: clamp_debt_def)
  from rollover_appends_monthly[OF ok, of 0 1] n ne f
  have "rolled_queue (currentDate (state_after ex_clamp 1)) (hd clamp_debts)
        (snd (clamp_queues ! 0)) clamp_rolled"
    unfolding clamp_queues_def clamp_debts_def clamp_rolled_def by blast
  moreover have "map dueDate clamp_rolled
       = [\<lparr>year = 2025, month0 = 1, day = 28\<rparr>, \<lparr>year = 2025, month0 = 2, day = 31\<rparr>]"
    unfolding clamp_rolled_value by simp
  moreover have "map amountRemaining clamp_rolled = [191 / 5, 39091380192 / 1000000000]"
    unfolding clamp_rolled_value by simp
  ultimately show ?thesis using ok n ne f m by blast
qed

text \<open>
  Claim C2 as stated fails for a due day of 31: the obligation due on 28 February 2025 is
  followed by one due on 31 March, the debt's due day in the next month, whereas one
  calendar month after 28 February is 28 March.
\<close>

theorem rollover_due_day_counterexample:
  "dueDate (clamp_rolled ! 0) = \<lparr>year = 2025, month0 = 1, day = 28\<rparr>
   \<and> dueDate (clamp_rolled ! 1) = \<lparr>year = 2025, month0 = 2, day = 31\<rparr>
   \<and> stated_month_after (dueDate (clamp_rolled ! 0)) = \<lparr>year = 2025, month0 = 2, day = 28\<rparr>
   \<and> dueDate (clamp_rolled ! 1) \<noteq> stated_month_after (dueDate (clamp_rolled ! 0))"
  unfolding clamp_rolled_value
  by (simp add: stated_month_after_def due_day_in_next_month_def days_in_month_def)

subsection \<open>Sorted output of the comparator sort\<close>

lemma distinct_insort_cmp [simp]: "distinct (insort_cmp c x xs) = (x \<notin> set xs \<and> distinct xs)"
  by (induction xs) auto

lemma js_sort_Nil: "js_sort c [] = []"
  by (simp add: js_sort_def)

lemma js_sort_Cons: "js_sort c (x # xs) = insort_cmp c x (js_sort c xs)"
  by (simp add: js_sort_def)

lemma distinct_js_sort [simp]: "distinct (js_sort c xs) = distinct xs"
  by (induction xs) (simp_all add: js_sort_Nil js_sort_Cons)

lemma sorted_wrt_insort_cmp:
  assumes tr: "\<And>a b d. c a b \<le> 0 \<Longrightarrow> c b d \<le> 0 \<Longrightarrow> c a d \<le> 0"
    and tot: "\<And>a b. c a b \<le> 0 \<or> c b a \<le> 0"
  shows "sorted_wrt (\<lambda>a b. c a b \<le> 0) xs \<Longrightarrow> sorted_wrt (\<lambda>a b. c a b \<le> 0) (insort_cmp c x xs)"
proof (induction xs)
  case Nil then show ?case by simp
next
  case (Cons y ys)
  show ?case
  proof (cases "c x y \<le> 0")
    case True
    have "c x z \<le> 0" if "z \<in> set ys" for z
      using Cons.prems that tr[OF True, of z] by simp
    with True Cons.prems show ?thesis by simp
  next
    case False
    with tot[of x y] have "c y x \<le> 0" by simp
    with False Cons show ?thesis by auto
  qed
qed

lemma sorted_wrt_js_sort:
  assumes "\<And>a b d. c a b \<le> 0 \<Longrightarrow> c b d \<le> 0 \<Longrightarrow> c a d \<le> 0"
    and "\<And>a b. c a b \<le> 0 \<or> c b a \<le> 0"
  shows "sorted_wrt (\<lambda>a b. c a b \<le> 0) (js_sort c xs)"
proof (induction xs)
  case Nil then show ?case by (simp add: js_sort_def)
next
  case (Cons x xs)
  show ?case unfolding js_sort_Cons
    by (rule sorted_wrt_insort_cmp[OF assms Cons])
qed

lemma sorted_by_key:
  assumes "\<And>a b. c a b \<le> 0 \<longleftrightarrow> f a \<le> (f b :: real)"
  shows "sorted_wrt (\<lambda>a b. f a \<le> f b) (js_sort c xs)"
proof -
  have "sorted_wrt (\<lambda>a b. c a b \<le> 0) (js_sort c xs)"
    by (rule sorted_wrt_js_sort) (use assms in auto)
  then show ?thesis by (simp add: assms)
qed

lemma sorted_wrt_hd:
  assumes "sorted_wrt R xs" "xs \<noteq> []" "\<And>a. R a a" "x \<in> set xs"
  shows "R (hd xs) x"
  using assms by (cases xs) auto

subsection \<open>The order of the strategies\<close>

lemma set_activeDebts: "set (activeDebts ds) = {i. i < length ds \<and> balance (ds ! i) > 0.5}"
  by (auto simp: activeDebts_def)

lemma set_orderedDebts: "set (orderedDebts sel ds) = {i. i < length ds \<and> balance (ds ! i) > 0.5}"
  by (simp add: orderedDebts_def set_activeDebts)

lemma distinct_orderedDebts: "distinct (orderedDebts sel ds)"
  by (simp add: orderedDebts_def activeDebts_def)

lemma ordered_snowball:
  "sorted_wrt (\<lambda>i j. balance (ds ! i) \<le> balance (ds ! j)) (orderedDebts ''snowball'' ds)"
  unfolding orderedDebts_def by (rule sorted_by_key) (simp add: cmp_strategy_def)

lemma ordered_avalanche:
  "sorted_wrt (\<lambda>i j. rate (ds ! j) \<le> rate (ds ! i)) (orderedDebts ''avalanche'' ds)"
  using sorted_by_key[of "\<lambda>i j. cmp_strategy ''avalanche'' (ds ! i) (ds ! j)" "\<lambda>i. - rate (ds ! i)"
          "activeDebts ds"]
  by (simp add: orderedDebts_def cmp_strategy_def)

lemma ordered_highMin:
  "sorted_wrt (\<lambda>i j. monthlyMin (ds ! j) \<le> monthlyMin (ds ! i)) (orderedDebts ''highMin'' ds)"
  using sorted_by_key[of "\<lambda>i j. cmp_strategy ''highMin'' (ds ! i) (ds ! j)"
          "\<lambda>i. - monthlyMin (ds ! i)" "activeDebts ds"]
  by (simp add: orderedDebts_def cmp_strategy_def)

lemma ordered_reverseSnowball:
  "sorted_wrt (\<lambda>i j. balance (ds ! j) \<le> balance (ds ! i)) (orderedDebts ''reverseSnowball'' ds)"
  using sorted_by_key[of "\<lambda>i j. cmp_strategy ''reverseSnowball'' (ds ! i) (ds ! j)"
          "\<lambda>i. - balance (ds ! i)" "activeDebts ds"]
  by (simp add: orderedDebts_def cmp_strategy_def)

lemma ordered_fallback:
  assumes "sel \<noteq> ''snowball''" "sel \<noteq> ''avalanche''" "sel \<noteq> ''highMin''"
          "sel \<noteq> ''reverseSnowball''"
  shows "sorted_wrt (\<lambda>i j. rate (ds ! j) \<le> rate (ds ! i)) (orderedDebts sel ds)"
  using sorted_by_key[of "\<lambda>i j. cmp_strategy sel (ds ! i) (ds ! j)" "\<lambda>i. - rate (ds ! i)"
          "activeDebts ds"] assms
  by (simp add: orderedDebts_def cmp_strategy_def)

subsection \<open>Sequential payment\<close>

lemma threshold_payments_no_cash:
  "c \<le> 1 \<Longrightarrow> threshold_payments c bs = replicate (length bs) 0"
  by (induction bs) simp_all

lemma sum_list_zeros [simp]: "sum_list (replicate n (0::real)) = 0"
  by (induction n) simp_all

lemma length_threshold_payments [simp]: "length (threshold_payments c bs) = length bs"
  by (induction bs arbitrary: c) simp_all

lemma pay_each_Nil [simp]: "pay_each [] ps ds = ds"
  by (simp add: pay_each_def)

lemma pay_each_Cons:
  "pay_each (i # js) (p # ps) ds =
     pay_each js ps (ds[i := (ds ! i)\<lparr>balance := balance (ds ! i) - p\<rparr>])"
  by (simp add: pay_each_def)

lemma pay_each_zero: "pay_each js (replicate n 0) ds = ds"
proof (induction js arbitrary: n)
  case Nil then show ?case by simp
next
  case (Cons i js)
  show ?case
  proof (cases n)
    case 0 then show ?thesis by (simp add: pay_each_def)
  next
    case (Suc m)
    then show ?thesis using Cons[of m] by (simp add: pay_each_Cons)
  qed
qed

lemma payment_log_zero: "payment_log js (replicate n 0) ds = []"
proof -
  have "filter (\<lambda>ip. snd ip > 0) (zip js (replicate n (0::real))) = []"
    by (auto simp: filter_empty_conv dest!: set_zip_rightD)
  then show ?thesis by (simp add: payment_log_def)
qed

lemma payment_log_Cons:
  "payment_log (i # js) (p # ps) ds =
     (if p > 0 then [(debt_name (ds ! i), p)] else []) @ payment_log js ps ds"
  by (simp add: payment_log_def)

lemma payment_log_update:
  assumes "i \<notin> set js"
  shows "payment_log js ps (ds[i := x]) = payment_log js ps ds"
proof -
  have "fst ip \<noteq> i" if "ip \<in> set (zip js ps)" for ip
    using that assms by (metis prod.collapse set_zip_leftD)
  then show ?thesis by (fastforce simp: payment_log_def)
qed

lemma pay_extra_refines:
  assumes "distinct js" "\<forall>i\<in>set js. i < length ds \<and> balance (ds ! i) > 0"
  shows "pay_extra js (extra, ds, lg) =
     (extra - sum_list (threshold_payments extra (map (\<lambda>i. balance (ds ! i)) js)),
      pay_each js (threshold_payments extra (map (\<lambda>i. balance (ds ! i)) js)) ds,
      lg @ payment_log js (threshold_payments extra (map (\<lambda>i. balance (ds ! i)) js)) ds)"
  using assms
proof (induction js arbitrary: extra ds lg)
  case Nil
  then show ?case by (simp add: payment_log_def)
next
  case (Cons i js)
  let ?bs = "map (\<lambda>j. balance (ds ! j)) js"
  show ?case
  proof (cases "extra \<le> 1")
    case True
    have "threshold_payments extra (map (\<lambda>j. balance (ds ! j)) (i # js))
          = replicate (length (i # js)) 0"
      using threshold_payments_no_cash[OF True, of "map (\<lambda>j. balance (ds ! j)) (i # js)"]
      by (simp only: length_map)
    then show ?thesis using True
      by (simp only: pay_each_zero payment_log_zero) simp
  next
    case False
    let ?pay = "min extra (balance (ds ! i))"
    let ?d1 = "ds[i := (ds ! i)\<lparr>balance := balance (ds ! i) - ?pay\<rparr>]"
    from Cons.prems have inot: "i \<notin> set js" and dj: "distinct js"
      and bi: "balance (ds ! i) > 0" and il: "i < length ds" by simp_all
    from False bi have pos: "?pay > 0" by simp
    have other: "?d1 ! j = ds ! j" if "j \<in> set js" for j
    proof -
      from that inot have "i \<noteq> j" by auto
      then show ?thesis by simp
    qed
    have same: "map (\<lambda>j. balance (?d1 ! j)) js = ?bs"
      by (rule map_cong[OF refl]) (simp only: other)
    have pre: "\<forall>j\<in>set js. j < length ?d1 \<and> balance (?d1 ! j) > 0"
      using Cons.prems(2) by (simp add: other)
    have step: "pay_extra (i # js) (extra, ds, lg)
                = pay_extra js (extra - ?pay, ?d1, lg @ [(debt_name (ds ! i), ?pay)])"
    proof -
      from pos have npos: "\<not> ?pay \<le> 0" by (simp only: not_le)
      show ?thesis
        by (simp only: pay_extra.simps prod.case Let_def False if_False npos pay_debt_def)
    qed
    have tp: "threshold_payments extra (map (\<lambda>j. balance (ds ! j)) (i # js))
              = ?pay # threshold_payments (extra - ?pay) ?bs"
      using False by simp
    show ?thesis
      unfolding step tp Cons.IH[OF dj pre] same
      using pos by (simp add: pay_each_Cons payment_log_Cons payment_log_update[OF inot])
  qed
qed

lemma strategy_allocation_sequential:
  assumes "selector sel0 \<noteq> ''flat''"
  shows "strategy_allocation sel0 cash ds =
     (cash - sum_list (threshold_payments cash
                (map (\<lambda>i. balance (ds ! i)) (orderedDebts (selector sel0) ds))),
      pay_each (orderedDebts (selector sel0) ds)
        (threshold_payments cash (map (\<lambda>i. balance (ds ! i)) (orderedDebts (selector sel0) ds))) ds,
      payment_log (orderedDebts (selector sel0) ds)
        (threshold_payments cash (map (\<lambda>i. balance (ds ! i)) (orderedDebts (selector sel0) ds))) ds)"
proof (cases "cash > 1")
  case True
  have pre: "\<forall>i\<in>set (orderedDebts (selector sel0) ds). i < length ds \<and> balance (ds ! i) > 0"
    by (auto simp: set_orderedDebts)
  have "strategy_allocation sel0 cash ds = pay_extra (orderedDebts (selector sel0) ds) (cash, ds, [])"
    using True assms by (simp add: strategy_allocation_def Let_def selector_def)
  then show ?thesis
    using pay_extra_refines[OF distinct_orderedDebts pre, where extra = cash and lg = "[]"] by simp
next
  case False
  then have c: "cash \<le> 1" by simp
  show ?thesis
    using c by (simp add: strategy_allocation_def threshold_payments_no_cash[OF c]
                  pay_each_zero payment_log_zero)
qed

lemma payment_log_hd:
  assumes "cash > 1" "js \<noteq> []" "balance (ds ! hd js) > 0"
  shows "hd (payment_log js (threshold_payments cash (map (\<lambda>i. balance (ds ! i)) js)) ds)
         = (debt_name (ds ! hd js), min cash (balance (ds ! hd js)))"
proof -
  from assms(2) obtain i rest where js: "js = i # rest" by (cases js) auto
  from assms(1,3) have "0 < min cash (balance (ds ! i))" by (simp add: js)
  then show ?thesis using assms(1) by (simp add: js payment_log_Cons)
qed

text \<open>
  Claim C7, as amended.  For every selector other than flat (an empty selector counts as
  snowball): the ordered debts are exactly the debts with a balance above 0.5, each once,
  ordered by balance ascending under snowball, rate descending under avalanche, contractual
  monthly minimum descending under highMin, balance descending under reverseSnowball and
  rate descending under any other selector.  The allocation pays the ordered debts in turn:
  a debt reached while the remaining cash exceeds 1 receives the minimum of the remaining
  cash and its balance, and a debt reached with remaining cash of at most 1 receives
  nothing; the cash returned to the pool is the cash received minus the payments.  When the
  cash exceeds 1 and some debt is active, the first entry of the strategy log is the first
  ordered debt with a positive payment, which under snowball has the smallest balance of
  the active debts and under avalanche the highest rate.  In every period the allocation
  runs on the cash and the debts the settlement leaves, and goal funding starts from the
  cash the allocation returns.
\<close>

theorem strategy_orders_and_pays_in_turn:
  fixes sel0 :: string and cash :: real and ds :: "debt list"
  defines "od \<equiv> orderedDebts (selector sel0) ds"
  defines "ps \<equiv> threshold_payments cash (map (\<lambda>i. balance (ds ! i)) od)"
  assumes nf: "selector sel0 \<noteq> ''flat''"
  shows "set od = {i. i < length ds \<and> balance (ds ! i) > 0.5} \<and> distinct od
    \<and> (selector sel0 = ''snowball'' \<longrightarrow> sorted_wrt (\<lambda>i j. balance (ds ! i) \<le> balance (ds ! j)) od)
    \<and> (selector sel0 = ''avalanche'' \<longrightarrow> sorted_wrt (\<lambda>i j. rate (ds ! j) \<le> rate (ds ! i)) od)
    \<and> (selector sel0 = ''highMin''
         \<longrightarrow> sorted_wrt (\<lambda>i j. monthlyMin (ds ! j) \<le> monthlyMin (ds ! i)) od)
    \<and> (selector sel0 = ''reverseSnowball''
         \<longrightarrow> sorted_wrt (\<lambda>i j. balance (ds ! j) \<le> balance (ds ! i)) od)
    \<and> (selector sel0 \<noteq> ''snowball'' \<and> selector sel0 \<noteq> ''avalanche''
        \<and> selector sel0 \<noteq> ''highMin'' \<and> selector sel0 \<noteq> ''reverseSnowball''
         \<longrightarrow> sorted_wrt (\<lambda>i j. rate (ds ! j) \<le> rate (ds ! i)) od)
    \<and> strategy_allocation sel0 cash ds
        = (cash - sum_list ps, pay_each od ps ds, payment_log od ps ds)
    \<and> (cash > 1 \<and> od \<noteq> [] \<longrightarrow>
          hd (snd (snd (strategy_allocation sel0 cash ds)))
            = (debt_name (ds ! hd od), min cash (balance (ds ! hd od)))
          \<and> 0 < min cash (balance (ds ! hd od))
          \<and> (selector sel0 = ''snowball''
               \<longrightarrow> (\<forall>i\<in>set od. balance (ds ! hd od) \<le> balance (ds ! i)))
          \<and> (selector sel0 = ''avalanche''
               \<longrightarrow> (\<forall>i\<in>set od. rate (ds ! i) \<le> rate (ds ! hd od))))
    \<and> allocated (period_body inp s)
        = strategy_allocation (strategy inp) (ss_cash (settled (period_body inp s)))
            (ss_debts (settled (period_body inp s)))
    \<and> funded (period_body inp s)
        = fund_goals (total_balance (debts_clean (period_body inp s)))
            (fst (allocated (period_body inp s))) (currentGoals s)"
proof -
  have 1: "set od = {i. i < length ds \<and> balance (ds ! i) > 0.5}" "distinct od"
    unfolding od_def by (rule set_orderedDebts, rule distinct_orderedDebts)
  have 2: "selector sel0 = ''snowball'' \<longrightarrow> sorted_wrt (\<lambda>i j. balance (ds ! i) \<le> balance (ds ! j)) od"
    unfolding od_def using ordered_snowball[of ds] by simp
  have 3: "selector sel0 = ''avalanche'' \<longrightarrow> sorted_wrt (\<lambda>i j. rate (ds ! j) \<le> rate (ds ! i)) od"
    unfolding od_def using ordered_avalanche[of ds] by simp
  have 4: "selector sel0 = ''highMin''
         \<longrightarrow> sorted_wrt (\<lambda>i j. monthlyMin (ds ! j) \<le> monthlyMin (ds ! i)) od"
    unfolding od_def using ordered_highMin[of ds] by simp
  have 5: "selector sel0 = ''reverseSnowball''
         \<longrightarrow> sorted_wrt (\<lambda>i j. balance (ds ! j) \<le> balance (ds ! i)) od"
    unfolding od_def using ordered_reverseSnowball[of ds] by simp
  have 6: "selector sel0 \<noteq> ''snowball'' \<and> selector sel0 \<noteq> ''avalanche''
        \<and> selector sel0 \<noteq> ''highMin'' \<and> selector sel0 \<noteq> ''reverseSnowball''
         \<longrightarrow> sorted_wrt (\<lambda>i j. rate (ds ! j) \<le> rate (ds ! i)) od"
    unfolding od_def using ordered_fallback[of "selector sel0" ds] by blast
  have 7: "strategy_allocation sel0 cash ds
        = (cash - sum_list ps, pay_each od ps ds, payment_log od ps ds)"
    unfolding ps_def od_def by (rule strategy_allocation_sequential[OF nf])
  have 8: "hd (snd (snd (strategy_allocation sel0 cash ds)))
            = (debt_name (ds ! hd od), min cash (balance (ds ! hd od)))
          \<and> 0 < min cash (balance (ds ! hd od))
          \<and> (selector sel0 = ''snowball''
               \<longrightarrow> (\<forall>i\<in>set od. balance (ds ! hd od) \<le> balance (ds ! i)))
          \<and> (selector sel0 = ''avalanche''
               \<longrightarrow> (\<forall>i\<in>set od. rate (ds ! i) \<le> rate (ds ! hd od)))"
    if c: "cash > 1" and ne: "od \<noteq> []"
  proof -
    from ne have "hd od \<in> set od" by simp
    with 1(1) have b: "balance (ds ! hd od) > 0.5" by simp
    then have b0: "balance (ds ! hd od) > 0" by simp
    have a: "hd (snd (snd (strategy_allocation sel0 cash ds)))
            = (debt_name (ds ! hd od), min cash (balance (ds ! hd od)))"
      unfolding 7 ps_def using payment_log_hd[OF c ne b0] by simp
    have p: "0 < min cash (balance (ds ! hd od))" using c b0 by simp
    have s: "\<forall>i\<in>set od. balance (ds ! hd od) \<le> balance (ds ! i)"
      if "selector sel0 = ''snowball''"
      using sorted_wrt_hd[of "\<lambda>i j. balance (ds ! i) \<le> balance (ds ! j)" od] 2 that ne by simp
    have v: "\<forall>i\<in>set od. rate (ds ! i) \<le> rate (ds ! hd od)"
      if "selector sel0 = ''avalanche''"
      using sorted_wrt_hd[of "\<lambda>i j. rate (ds ! j) \<le> rate (ds ! i)" od] 3 that ne by simp
    from a p s v show ?thesis by blast
  qed
  from 1 2 3 4 5 6 7 8 body_allocated[of inp s] body_funded[of inp s] show ?thesis by blast
qed

theorem strategy_orders_and_pays_in_turn_witness:
  "selector (strategy ex_threshold) \<noteq> ''flat''
   \<and> ss_cash (settled (period_body ex_threshold (init_sim ex_threshold))) > 1
   \<and> orderedDebts (selector (strategy ex_threshold))
        (ss_debts (settled (period_body ex_threshold (init_sim ex_threshold)))) = [1, 0]
   \<and> hd (snd (snd (strategy_allocation (strategy ex_threshold)
           (ss_cash (settled (period_body ex_threshold (init_sim ex_threshold))))
           (ss_debts (settled (period_body ex_threshold (init_sim ex_threshold)))))))
       = (''A'', 10)"
proof -
  let ?st = "settled (period_body ex_threshold (init_sim ex_threshold))"
  have nf: "selector (strategy ex_threshold) \<noteq> ''flat''" by code_simp
  have c: "ss_cash ?st > 1" by code_simp
  have od: "orderedDebts (selector (strategy ex_threshold)) (ss_debts ?st) = [1, 0]" by code_simp
  have v: "(debt_name (ss_debts ?st ! hd [1, 0]), min (ss_cash ?st) (balance (ss_debts ?st ! hd [1, 0])))
           = (''A'', 10)" by code_simp
  have ne: "orderedDebts (selector (strategy ex_threshold)) (ss_debts ?st) \<noteq> []"
    unfolding od by simp
  from strategy_orders_and_pays_in_turn[OF nf, where cash = "ss_cash ?st" and ds = "ss_debts ?st"]
       c ne
  have "hd (snd (snd (strategy_allocation (strategy ex_threshold) (ss_cash ?st) (ss_debts ?st))))
        = (debt_name (ss_debts ?st ! hd (orderedDebts (selector (strategy ex_threshold)) (ss_debts ?st))),
           min (ss_cash ?st) (balance (ss_debts ?st
              ! hd (orderedDebts (selector (strategy ex_threshold)) (ss_debts ?st)))))"
    by blast
  then have "hd (snd (snd (strategy_allocation (strategy ex_threshold) (ss_cash ?st) (ss_debts ?st))))
        = (''A'', 10)"
    unfolding od v .
  with nf c od show ?thesis by blast
qed

text \<open>
  Claim C7 as stated fails: with cash 10.5 and active balances 10 and 20 under snowball,
  the debt of 10 is paid off and the loop stops with 0.5 left; the debt of 20 keeps its
  balance, whereas the stated rule pays it min(0.5, 20) = 0.5 and would leave 19.5.
\<close>

theorem strategy_threshold_counterexample:
  "ss_cash (settled (period_body ex_threshold (init_sim ex_threshold))) = 21 / 2
   \<and> map balance (ss_debts (settled (period_body ex_threshold (init_sim ex_threshold)))) = [20, 10]
   \<and> orderedDebts ''snowball''
        (ss_debts (settled (period_body ex_threshold (init_sim ex_threshold)))) = [1, 0]
   \<and> fst (allocated (period_body ex_threshold (init_sim ex_threshold))) = 1 / 2
   \<and> map balance (fst (snd (allocated (period_body ex_threshold (init_sim ex_threshold))))) = [20, 0]
   \<and> stated_payments (21 / 2) [10, 20] = [10, 1 / 2]
   \<and> map balance
        (pay_each [1, 0] [10, 1 / 2]
           (ss_debts (settled (period_body ex_threshold (init_sim ex_threshold)))))
       = [39 / 2, 0]"
  by code_simp

subsection \<open>Which debts are settled, and in which order\<close>

lemma distinct_map_insort_cmp:
  "distinct (map f (insort_cmp c x xs)) = (f x \<notin> f ` set xs \<and> distinct (map f xs))"
  by (induction xs) auto

lemma distinct_map_js_sort: "distinct (map f (js_sort c xs)) = distinct (map f xs)"
  by (induction xs) (simp_all add: js_sort_Nil js_sort_Cons distinct_map_insort_cmp)

lemma min_entry_of_Some:
  "min_entry_of ds mo i = Some e \<Longrightarrow> me_debt e = i"
  by (auto simp: min_entry_of_def Let_def split: if_splits)

lemma min_entry_of_None_iff:
  "min_entry_of ds mo i = None \<longleftrightarrow>
     \<not> (balance (ds ! i) > 0.5 \<and> (\<exists>ob\<in>set (obs_of mo (debt_id (ds ! i))). amountRemaining ob > 0.5))"
  by (auto simp: min_entry_of_def Let_def activeObs_def filter_empty_conv)

lemma map_me_debt_map_filter:
  "map me_debt (List.map_filter (min_entry_of ds mo) js)
     = filter (\<lambda>i. min_entry_of ds mo i \<noteq> None) js"
  by (induction js) (auto simp: List.map_filter_simps min_entry_of_Some split: option.splits)

lemma set_debtsForMin:
  "set (map me_debt (debtsForMin ds mo)) =
     {i. i < length ds \<and> balance (ds ! i) > 0.5
         \<and> (\<exists>ob\<in>set (obs_of mo (debt_id (ds ! i))). amountRemaining ob > 0.5)}"
proof -
  have "set (map me_debt (debtsForMin ds mo))
        = set (map me_debt (List.map_filter (min_entry_of ds mo) [0..<length ds]))"
    by (simp add: debtsForMin_def)
  also have "\<dots> = {i. i < length ds \<and> min_entry_of ds mo i \<noteq> None}"
    unfolding map_me_debt_map_filter by auto
  finally show ?thesis by (auto simp: min_entry_of_None_iff)
qed

lemma distinct_debtsForMin: "distinct (map me_debt (debtsForMin ds mo))"
  unfolding debtsForMin_def distinct_map_js_sort map_me_debt_map_filter by simp

lemma cmp_min_more_urgent: "cmp_min a b \<le> 0 \<longleftrightarrow> more_urgent a b"
  by (auto simp: cmp_min_def more_urgent_def)

lemma sorted_debtsForMin: "sorted_wrt more_urgent (debtsForMin ds mo)"
proof -
  have "sorted_wrt (\<lambda>a b. cmp_min a b \<le> 0) (debtsForMin ds mo)"
    unfolding debtsForMin_def
    by (rule sorted_wrt_js_sort) (auto simp: cmp_min_more_urgent more_urgent_def)
  then show ?thesis by (simp add: cmp_min_more_urgent[abs_def])
qed

lemma foldl_earliest:
  "(foldl (\<lambda>m ob. if date_key (dueDate ob) < date_key m then dueDate ob else m) m0 obs
      \<in> insert m0 (dueDate ` set obs))
   \<and> date_key (foldl (\<lambda>m ob. if date_key (dueDate ob) < date_key m then dueDate ob else m) m0 obs)
       \<le> date_key m0
   \<and> (\<forall>ob\<in>set obs.
        date_key (foldl (\<lambda>m ob. if date_key (dueDate ob) < date_key m then dueDate ob else m) m0 obs)
          \<le> date_key (dueDate ob))"
proof (induction obs arbitrary: m0)
  case Nil then show ?case by simp
next
  case (Cons ob obs)
  let ?m1 = "if date_key (dueDate ob) < date_key m0 then dueDate ob else m0"
  from Cons[of ?m1] show ?case by (auto split: if_splits)
qed

lemma foldl_sum_amount:
  "foldl (\<lambda>t ob. t + amountRemaining ob) t0 obs = t0 + sum_list (map amountRemaining obs)"
  by (induction obs arbitrary: t0) simp_all

lemma min_entry_of_fields:
  assumes "min_entry_of ds mo i = Some e"
  shows "is_earliest_due (obs_of mo (debt_id (ds ! i))) (earliestDue e)
         \<and> totalRemaining e = sum_list (map amountRemaining (activeObs (obs_of mo (debt_id (ds ! i)))))"
proof -
  let ?act = "activeObs (obs_of mo (debt_id (ds ! i)))"
  from assms have ne: "?act \<noteq> []"
    and e: "e = \<lparr>me_debt = i,
                 earliestDue = foldl (\<lambda>m ob. if date_key (dueDate ob) < date_key m
                                                 then dueDate ob else m) (dueDate (hd ?act)) ?act,
                 totalRemaining = foldl (\<lambda>t ob. t + amountRemaining ob) 0 ?act\<rparr>"
    by (auto simp: min_entry_of_def Let_def split: if_splits)
  from ne have h: "dueDate (hd ?act) \<in> dueDate ` set ?act" by simp
  from foldl_earliest[of "dueDate (hd ?act)" ?act] h
  have "is_earliest_due (obs_of mo (debt_id (ds ! i))) (earliestDue e)"
    unfolding is_earliest_due_def e by (auto simp: insert_absorb)
  moreover have "totalRemaining e = sum_list (map amountRemaining ?act)"
    unfolding e by (simp add: foldl_sum_amount)
  ultimately show ?thesis by blast
qed

lemma debtsForMin_fields:
  assumes "e \<in> set (debtsForMin ds mo)"
  shows "is_earliest_due (obs_of mo (debt_id (ds ! me_debt e))) (earliestDue e)
         \<and> totalRemaining e
             = sum_list (map amountRemaining (activeObs (obs_of mo (debt_id (ds ! me_debt e)))))"
proof -
  from assms have "e \<in> set (List.map_filter (min_entry_of ds mo) [0..<length ds])"
    by (simp add: debtsForMin_def)
  then obtain i where i: "min_entry_of ds mo i = Some e"
    by (auto simp: List.map_filter_def)
  from min_entry_of_fields[OF i] min_entry_of_Some[OF i] show ?thesis by simp
qed

lemma sortedObs_sorted:
  "sorted_wrt (\<lambda>i j. date_key (dueDate (obs ! i)) \<le> date_key (dueDate (obs ! j))) (sortedObs obs)"
proof -
  have "sorted_wrt (\<lambda>i j. real_of_int (date_key (dueDate (obs ! i)))
                         \<le> real_of_int (date_key (dueDate (obs ! j)))) (sortedObs obs)"
    unfolding sortedObs_def by (rule sorted_by_key) (simp add: cmp_due_def)
  then show ?thesis by simp
qed

lemma distinct_sortedObs: "distinct (sortedObs obs)"
  by (simp add: sortedObs_def)

subsection \<open>What each obligation receives\<close>

lemma due_payments_no_cash: "c \<le> 0 \<Longrightarrow> due_payments c b as = replicate (length as) 0"
  by (induction as) simp_all

lemma pay_each_ob_Nil [simp]: "pay_each_ob [] ps obs = obs"
  by (simp add: pay_each_ob_def)

lemma pay_each_ob_Cons:
  "pay_each_ob (i # js) (p # ps) obs =
     pay_each_ob js ps (obs[i := (obs ! i)\<lparr>amountRemaining := amountRemaining (obs ! i) - p\<rparr>])"
  by (simp add: pay_each_ob_def)

lemma pay_each_ob_Cons_zero: "pay_each_ob (i # js) (0 # ps) obs = pay_each_ob js ps obs"
  by (simp add: pay_each_ob_Cons)

lemma pay_each_ob_zero: "pay_each_ob js (replicate n 0) obs = obs"
proof (induction js arbitrary: n)
  case Nil then show ?case by simp
next
  case (Cons i js)
  show ?case
  proof (cases n)
    case 0 then show ?thesis by (simp add: pay_each_ob_def)
  next
    case (Suc m)
    then show ?thesis using Cons[of m] by (simp add: pay_each_ob_Cons)
  qed
qed

lemma pay_obs_refines:
  assumes "distinct js" "\<forall>i\<in>set js. i < length obs" "0 \<le> bal"
  shows "pay_obs js (cash, bal, obs, paid) =
     (cash - sum_list (due_payments cash bal (map (\<lambda>i. amountRemaining (obs ! i)) js)),
      bal - sum_list (due_payments cash bal (map (\<lambda>i. amountRemaining (obs ! i)) js)),
      pay_each_ob js (due_payments cash bal (map (\<lambda>i. amountRemaining (obs ! i)) js)) obs,
      paid + sum_list (due_payments cash bal (map (\<lambda>i. amountRemaining (obs ! i)) js)))"
  using assms
proof (induction js arbitrary: cash bal obs paid)
  case Nil
  then show ?case by simp
next
  case (Cons i js)
  let ?as = "map (\<lambda>j. amountRemaining (obs ! j)) js"
  let ?a = "amountRemaining (obs ! i)"
  from Cons.prems have inot: "i \<notin> set js" and dj: "distinct js"
    and lj: "\<forall>j\<in>set js. j < length obs" by simp_all
  show ?case
  proof (cases "cash \<le> 0")
    case True
    have "due_payments cash bal (map (\<lambda>j. amountRemaining (obs ! j)) (i # js))
          = replicate (length (i # js)) 0"
      using due_payments_no_cash[OF True, of bal "map (\<lambda>j. amountRemaining (obs ! j)) (i # js)"]
      by (simp only: length_map)
    then show ?thesis using True
      by (simp only: pay_each_ob_zero) simp
  next
    case False
    show ?thesis
    proof (cases "?a \<le> 0.5")
      case True
      have step: "pay_obs (i # js) (cash, bal, obs, paid) = pay_obs js (cash, bal, obs, paid)"
        by (simp only: pay_obs.simps fst_conv False if_False pay_ob_def prod.case True if_True)
      have dp: "due_payments cash bal (map (\<lambda>j. amountRemaining (obs ! j)) (i # js))
                = 0 # due_payments cash bal ?as"
        using True by simp
      show ?thesis
        unfolding step dp Cons.IH[OF dj lj Cons.prems(3)]
        by (simp add: pay_each_ob_Cons_zero)
    next
      case big: False
      let ?pay = "min cash (min ?a bal)"
      let ?o1 = "obs[i := (obs ! i)\<lparr>amountRemaining := ?a - ?pay\<rparr>]"
      have other: "?o1 ! j = obs ! j" if "j \<in> set js" for j
      proof -
        from that inot have "i \<noteq> j" by auto
        then show ?thesis by simp
      qed
      have same: "map (\<lambda>j. amountRemaining (?o1 ! j)) js = ?as"
        by (rule map_cong[OF refl]) (simp only: other)
      have l1: "\<forall>j\<in>set js. j < length ?o1" using lj by simp
      have p0: "0 \<le> ?pay" using False big Cons.prems(3) by simp
      have b1: "0 \<le> bal - ?pay" by simp
      have dp: "due_payments cash bal (map (\<lambda>j. amountRemaining (obs ! j)) (i # js))
                = ?pay # due_payments (cash - ?pay) (bal - ?pay) ?as"
        using False big by simp
      show ?thesis
      proof (cases "?pay \<le> 0")
        case True
        from True p0 have z: "?pay = 0" by (rule antisym)
        have step: "pay_obs (i # js) (cash, bal, obs, paid) = pay_obs js (cash, bal, obs, paid)"
          by (simp only: pay_obs.simps fst_conv False if_False pay_ob_def prod.case big Let_def
                True if_True)
        show ?thesis
          unfolding step dp Cons.IH[OF dj lj Cons.prems(3)]
          by (simp only: z) (simp add: pay_each_ob_Cons_zero)
      next
        case pos: False
        have step: "pay_obs (i # js) (cash, bal, obs, paid)
                    = pay_obs js (cash - ?pay, bal - ?pay, ?o1, paid + ?pay)"
          by (simp only: pay_obs.simps fst_conv False if_False pay_ob_def prod.case big Let_def
                pos)
        show ?thesis
          unfolding step dp Cons.IH[OF dj l1 b1] same
          by (simp add: pay_each_ob_Cons)
      qed
    qed
  qed
qed

lemma settle_debt_refines:
  fixes st :: settle_state and e :: min_entry
  defines "d \<equiv> ss_debts st ! me_debt e"
  defines "obs \<equiv> obs_of (ss_obs st) (debt_id d)"
  defines "ps \<equiv> due_payments (ss_cash st) (balance d)
                   (map (\<lambda>i. amountRemaining (obs ! i)) (sortedObs obs))"
  assumes "0 \<le> balance d"
  shows "settle_debt st e =
     \<lparr>ss_cash = ss_cash st - sum_list ps,
      ss_debts = (ss_debts st)[me_debt e := d\<lparr>balance := balance d - sum_list ps\<rparr>],
      ss_obs = AList.update (debt_id d) (pay_each_ob (sortedObs obs) ps obs) (ss_obs st),
      ss_paid = ss_paid st + sum_list ps\<rparr>"
proof -
  have "pay_obs (sortedObs obs) (ss_cash st, balance d, obs, ss_paid st) =
     (ss_cash st - sum_list ps, balance d - sum_list ps,
      pay_each_ob (sortedObs obs) ps obs, ss_paid st + sum_list ps)"
    unfolding ps_def
    by (rule pay_obs_refines[OF distinct_sortedObs _ assms(4)]) (simp add: set_sortedObs)
  then show ?thesis
    by (simp add: settle_debt_def Let_def d_def[symmetric] obs_def[symmetric])
qed

subsection \<open>Balances stay non-negative\<close>

lemma pay_ob_balance:
  "fst (snd (pay_ob i st)) \<le> fst (snd st) \<and> (0 \<le> fst (snd st) \<longrightarrow> 0 \<le> fst (snd (pay_ob i st)))"
  by (cases st) (auto simp: pay_ob_def Let_def min_def)

lemma pay_obs_balance:
  "fst (snd (pay_obs js st)) \<le> fst (snd st) \<and> (0 \<le> fst (snd st) \<longrightarrow> 0 \<le> fst (snd (pay_obs js st)))"
proof (induction js arbitrary: st)
  case Nil then show ?case by simp
next
  case (Cons i js)
  from Cons[of "pay_ob i st"] pay_ob_balance[of i st] show ?case by auto
qed

lemma settle_debt_not_overpaid: "not_overpaid (ss_debts st) (ss_debts (settle_debt st e))"
proof -
  let ?d = "ss_debts st ! me_debt e"
  let ?obs = "obs_of (ss_obs st) (debt_id ?d)"
  let ?r = "pay_obs (sortedObs ?obs) (ss_cash st, balance ?d, ?obs, ss_paid st)"
  have ds: "ss_debts (settle_debt st e) = (ss_debts st)[me_debt e := ?d\<lparr>balance := fst (snd ?r)\<rparr>]"
    by (simp add: settle_debt_def Let_def case_prod_beta)
  from pay_obs_balance[of "sortedObs ?obs" "(ss_cash st, balance ?d, ?obs, ss_paid st)"]
  have b: "fst (snd ?r) \<le> balance ?d" "0 \<le> balance ?d \<longrightarrow> 0 \<le> fst (snd ?r)" by simp_all
  have "balance ((ss_debts st)[me_debt e := ?d\<lparr>balance := fst (snd ?r)\<rparr>] ! i)
          \<le> balance (ss_debts st ! i)
        \<and> (0 \<le> balance (ss_debts st ! i)
             \<longrightarrow> 0 \<le> balance ((ss_debts st)[me_debt e := ?d\<lparr>balance := fst (snd ?r)\<rparr>] ! i))"
    if "i < length (ss_debts st)" for i
  proof (cases "i = me_debt e")
    case True
    with that b show ?thesis by simp
  next
    case False
    then show ?thesis by simp
  qed
  then show ?thesis
    unfolding not_overpaid_def ds by simp
qed

lemma not_overpaid_trans: "not_overpaid a b \<Longrightarrow> not_overpaid b c \<Longrightarrow> not_overpaid a c"
  unfolding not_overpaid_def by (metis order_trans)

lemma not_overpaid_refl: "not_overpaid a a"
  by (simp add: not_overpaid_def)

lemma foldl_settle_not_overpaid: "not_overpaid (ss_debts st) (ss_debts (foldl settle_debt st es))"
proof (induction es arbitrary: st)
  case Nil then show ?case by (simp add: not_overpaid_refl)
next
  case (Cons e es)
  from not_overpaid_trans[OF settle_debt_not_overpaid[of st e] Cons[of "settle_debt st e"]]
  show ?case by simp
qed

lemma settle_minimums_not_overpaid: "not_overpaid ds (ss_debts (settle_minimums cash ds mo))"
  using foldl_settle_not_overpaid[of "\<lparr>ss_cash = cash, ss_debts = ds, ss_obs = mo, ss_paid = 0\<rparr>"
          "debtsForMin ds mo"]
  by (simp add: settle_minimums_def)

subsection \<open>A debt is untouched until its turn\<close>

lemma settle_debt_other:
  "i \<noteq> me_debt e \<Longrightarrow> ss_debts (settle_debt st e) ! i = ss_debts st ! i"
  by (simp add: settle_debt_def Let_def case_prod_beta)

lemma foldl_settle_other:
  "i \<notin> me_debt ` set es \<Longrightarrow> ss_debts (foldl settle_debt st es) ! i = ss_debts st ! i"
  by (induction es arbitrary: st) (simp_all add: settle_debt_other)

lemma debt_at_its_turn:
  assumes "debtsForMin ds mo = pre @ e # post"
  shows "ss_debts (foldl settle_debt \<lparr>ss_cash = cash, ss_debts = ds, ss_obs = mo, ss_paid = 0\<rparr> pre)
           ! me_debt e = ds ! me_debt e"
    and "balance (ds ! me_debt e) > 0.5"
proof -
  from distinct_debtsForMin[of ds mo] assms have "me_debt e \<notin> me_debt ` set pre"
    by auto
  from foldl_settle_other[OF this]
  show "ss_debts (foldl settle_debt \<lparr>ss_cash = cash, ss_debts = ds, ss_obs = mo, ss_paid = 0\<rparr> pre)
           ! me_debt e = ds ! me_debt e" by simp
  from assms have "me_debt e \<in> set (map me_debt (debtsForMin ds mo))" by simp
  then show "balance (ds ! me_debt e) > 0.5" unfolding set_debtsForMin by simp
qed

text \<open>
  Claim C1, as amended.  The settlement processes exactly the debts that have a balance
  above 0.5 and at least one obligation with more than 0.5 remaining, each once, ordered by
  earliest unresolved due date ascending and, among equal dates, by larger total
  outstanding minimum first; the entry of a debt carries the earliest due date among its
  unresolved obligations and the sum of their amounts remaining.  Within a debt the
  obligations are visited in ascending order of due date.  When a debt's turn comes
  (\<open>pre\<close> are the entries settled before it) the debt is as it was before the settlement,
  and its obligations receive \<open>due_payments\<close>: an obligation reached with cash above 0 and
  more than 0.5 remaining receives the minimum of the cash available, its amount remaining
  and the debt's balance, and cash, amount remaining and balance all go down by that
  payment; an obligation with at most 0.5 remaining, or reached when the cash is exhausted,
  receives nothing.  No balance is raised, and no non-negative balance becomes negative.
  In every period the settlement runs on the period's cash, the balances after interest
  accrual and the queues after rollover.
\<close>

theorem minimum_settlement:
  fixes cash :: real and ds :: "debt list" and mo :: obligations
    and pre post :: "min_entry list" and e :: min_entry
  defines "st \<equiv> foldl settle_debt \<lparr>ss_cash = cash, ss_debts = ds, ss_obs = mo, ss_paid = 0\<rparr> pre"
  defines "d \<equiv> ss_debts st ! me_debt e"
  defines "obs \<equiv> obs_of (ss_obs st) (debt_id d)"
  defines "ps \<equiv> due_payments (ss_cash st) (balance d)
                   (map (\<lambda>i. amountRemaining (obs ! i)) (sortedObs obs))"
  shows "set (map me_debt (debtsForMin ds mo))
           = {i. i < length ds \<and> balance (ds ! i) > 0.5
                 \<and> (\<exists>ob\<in>set (obs_of mo (debt_id (ds ! i))). amountRemaining ob > 0.5)}
    \<and> distinct (map me_debt (debtsForMin ds mo))
    \<and> sorted_wrt more_urgent (debtsForMin ds mo)
    \<and> (\<forall>x\<in>set (debtsForMin ds mo).
          is_earliest_due (obs_of mo (debt_id (ds ! me_debt x))) (earliestDue x)
          \<and> totalRemaining x
              = sum_list (map amountRemaining (activeObs (obs_of mo (debt_id (ds ! me_debt x))))))
    \<and> set (sortedObs obs) = {0..<length obs} \<and> distinct (sortedObs obs)
    \<and> sorted_wrt (\<lambda>i j. date_key (dueDate (obs ! i)) \<le> date_key (dueDate (obs ! j))) (sortedObs obs)
    \<and> (debtsForMin ds mo = pre @ e # post \<longrightarrow>
          d = ds ! me_debt e \<and> balance d > 0.5
          \<and> settle_debt st e =
              \<lparr>ss_cash = ss_cash st - sum_list ps,
               ss_debts = (ss_debts st)[me_debt e := d\<lparr>balance := balance d - sum_list ps\<rparr>],
               ss_obs = AList.update (debt_id d) (pay_each_ob (sortedObs obs) ps obs) (ss_obs st),
               ss_paid = ss_paid st + sum_list ps\<rparr>
          \<and> (ss_cash st \<le> 0 \<longrightarrow> sum_list ps = 0))
    \<and> settle_minimums cash ds mo
        = foldl settle_debt \<lparr>ss_cash = cash, ss_debts = ds, ss_obs = mo, ss_paid = 0\<rparr>
            (debtsForMin ds mo)
    \<and> not_overpaid ds (ss_debts (settle_minimums cash ds mo))
    \<and> settled (period_body inp s)
        = settle_minimums (cash_start (period_body inp s)) (debts_accrued (period_body inp s))
            (obs_rolled (period_body inp s))"
proof -
  have 4: "\<forall>x\<in>set (debtsForMin ds mo).
          is_earliest_due (obs_of mo (debt_id (ds ! me_debt x))) (earliestDue x)
          \<and> totalRemaining x
              = sum_list (map amountRemaining (activeObs (obs_of mo (debt_id (ds ! me_debt x)))))"
    using debtsForMin_fields[of _ ds mo] by blast
  have 8: "d = ds ! me_debt e \<and> balance d > 0.5
          \<and> settle_debt st e =
              \<lparr>ss_cash = ss_cash st - sum_list ps,
               ss_debts = (ss_debts st)[me_debt e := d\<lparr>balance := balance d - sum_list ps\<rparr>],
               ss_obs = AList.update (debt_id d) (pay_each_ob (sortedObs obs) ps obs) (ss_obs st),
               ss_paid = ss_paid st + sum_list ps\<rparr>
          \<and> (ss_cash st \<le> 0 \<longrightarrow> sum_list ps = 0)"
    if sp: "debtsForMin ds mo = pre @ e # post"
  proof -
    have a: "d = ds ! me_debt e" unfolding d_def st_def by (rule debt_at_its_turn(1)[OF sp])
    have b: "balance d > 0.5" unfolding a by (rule debt_at_its_turn(2)[OF sp])
    then have nn: "0 \<le> balance (ss_debts st ! me_debt e)" unfolding d_def by simp
    have c: "settle_debt st e =
              \<lparr>ss_cash = ss_cash st - sum_list ps,
               ss_debts = (ss_debts st)[me_debt e := d\<lparr>balance := balance d - sum_list ps\<rparr>],
               ss_obs = AList.update (debt_id d) (pay_each_ob (sortedObs obs) ps obs) (ss_obs st),
               ss_paid = ss_paid st + sum_list ps\<rparr>"
      unfolding ps_def obs_def d_def by (rule settle_debt_refines[OF nn])
    have z: "sum_list ps = 0" if "ss_cash st \<le> 0"
      unfolding ps_def using due_payments_no_cash[OF that] by simp
    from a b c z show ?thesis by blast
  qed
  have 9: "settle_minimums cash ds mo
        = foldl settle_debt \<lparr>ss_cash = cash, ss_debts = ds, ss_obs = mo, ss_paid = 0\<rparr>
            (debtsForMin ds mo)"
    by (simp add: settle_minimums_def)
  from set_debtsForMin[of ds mo] distinct_debtsForMin[of ds mo] sorted_debtsForMin[of ds mo] 4
       set_sortedObs[of obs] distinct_sortedObs[of obs] sortedObs_sorted[of obs] 8 9
       settle_minimums_not_overpaid[of ds cash mo] body_settled[of inp s]
  show ?thesis by blast
qed

text \<open>
  Claim C1 as stated fails in the second period of \<open>ex_arrears\<close>: the debt is processed
  with cash 99.7, balance 900.3 and obligations with 0.3 and 100 remaining.  The first
  obligation keeps its 0.3 (the code passes over amounts of at most 0.5) and the second
  receives all 99.7, whereas the stated rule gives the first obligation min(99.7, 0.3, 900.3)
  = 0.3 and the second 99.4.
\<close>

theorem minimum_settlement_counterexample:
  "cash_start (period_body ex_arrears (state_after ex_arrears 1)) = 997 / 10
   \<and> map balance (debts_accrued (period_body ex_arrears (state_after ex_arrears 1))) = [9003 / 10]
   \<and> map amountRemaining (obs_of (obs_rolled (period_body ex_arrears (state_after ex_arrears 1))) 1)
       = [3 / 10, 100]
   \<and> map amountRemaining
        (obs_of (ss_obs (settled (period_body ex_arrears (state_after ex_arrears 1)))) 1)
       = [3 / 10, 3 / 10]
   \<and> stated_due_payments (997 / 10) (9003 / 10) [3 / 10, 100] = [3 / 10, 497 / 5]"
  by code_simp

lemma arrears_debts_value:
  "arrears_debts = [arrears_debt\<lparr>balance := 9003 / 10\<rparr>]"
  by code_simp

lemma arrears_queues_value:
  "arrears_queues =
     [(1, [\<lparr>dueDate = \<lparr>year = 2025, month0 = 0, day = 10\<rparr>, amountRemaining = 3 / 10,
            ob_monthlyMin = 100, banxicoBaseMin = 0\<rparr>,
           \<lparr>dueDate = \<lparr>year = 2025, month0 = 1, day = 10\<rparr>, amountRemaining = 100,
            ob_monthlyMin = 100, banxicoBaseMin = 0\<rparr>])]"
  by code_simp

lemma arrears_cash_value: "arrears_cash = 997 / 10"
  by code_simp

lemma arrears_entry_value:
  "arrears_entry = \<lparr>me_debt = 0, earliestDue = \<lparr>year = 2025, month0 = 1, day = 10\<rparr>,
                    totalRemaining = 100\<rparr>"
  unfolding arrears_entry_def arrears_debts_value arrears_queues_value by code_simp

theorem minimum_settlement_witness:
  "debtsForMin arrears_debts arrears_queues = [] @ arrears_entry # []
   \<and> due_payments arrears_cash (balance (arrears_debts ! me_debt arrears_entry))
        (map (\<lambda>i. amountRemaining (obs_of arrears_queues
                 (debt_id (arrears_debts ! me_debt arrears_entry)) ! i))
           (sortedObs (obs_of arrears_queues (debt_id (arrears_debts ! me_debt arrears_entry)))))
       = [0, 997 / 10]
   \<and> ss_cash (settle_debt
         \<lparr>ss_cash = arrears_cash, ss_debts = arrears_debts, ss_obs = arrears_queues, ss_paid = 0\<rparr>
         arrears_entry)
      = arrears_cash - sum_list [0, 997 / 10]"
proof -
  have h: "debtsForMin arrears_debts arrears_queues = [] @ arrears_entry # []"
    unfolding arrears_entry_value arrears_debts_value arrears_queues_value by code_simp
  have p: "due_payments arrears_cash (balance (arrears_debts ! me_debt arrears_entry))
        (map (\<lambda>i. amountRemaining (obs_of arrears_queues
                 (debt_id (arrears_debts ! me_debt arrears_entry)) ! i))
           (sortedObs (obs_of arrears_queues (debt_id (arrears_debts ! me_debt arrears_entry)))))
       = [0, 997 / 10]"
    unfolding arrears_entry_value arrears_debts_value arrears_queues_value arrears_cash_value
    by code_simp
  have "ss_cash (settle_debt
         \<lparr>ss_cash = arrears_cash, ss_debts = arrears_debts, ss_obs = arrears_queues, ss_paid = 0\<rparr>
         arrears_entry)
      = arrears_cash - sum_list (due_payments arrears_cash
          (balance (arrears_debts ! me_debt arrears_entry))
          (map (\<lambda>i. amountRemaining (obs_of arrears_queues
                 (debt_id (arrears_debts ! me_debt arrears_entry)) ! i))
           (sortedObs (obs_of arrears_queues (debt_id (arrears_debts ! me_debt arrears_entry))))))"
    using minimum_settlement[where pre = "[]" and post = "[]" and e = arrears_entry
        and cash = arrears_cash and ds = arrears_debts and mo = arrears_queues] h
    by simp
  with h p show ?thesis by (simp only: simp_thms)
qed

end
